theory Spec2Isabelle
  imports Main "HOL-Library.Sublist"
begin

section \<open>Values, outcomes and operations\<close>

text \<open>
  The two classes of \<^verbatim>\<open>22_Promises.js\<close> that schedule asynchronous work are
  \<^verbatim>\<open>PromiseQueue\<close> (section 6.1 of the file) and \<^verbatim>\<open>PromisePool\<close> (section 6.2).
  Both are driven by the JavaScript event loop, so the embedding makes the event loop
  explicit: a state holds the fields of the object, the activations of its
  \<^verbatim>\<open>async\<close> methods that are suspended at an \<^verbatim>\<open>await\<close>, and the FIFO queue of
  microtasks (promise reaction jobs). Every piece of synchronous code between two
  suspension points is one step.

  JavaScript values are abstracted to natural numbers. A call is identified by the
  number of calls made before it (its \<open>tid\<close>); the promise a call returns is identified
  with the call.

  The user's code is the environment. It acts through events: it calls a method, it lets
  the promise of an operation settle, and the event loop runs the oldest microtask. A
  sequence of events is one execution; a property of all sequences holds in every
  execution, since the sequences include every order in which the user's code can act.
  An operation is taken not to call back into the scheduler before it returns or throws;
  a call it makes later is an event of its own.
\<close>

type_synonym val = nat
type_synonym tid = nat

datatype outcome = Fulfilled val | Rejected val

text \<open>
  What \<^verbatim>\<open>promiseFunc()\<close> does when it is invoked: it throws synchronously, or it
  returns a value or promise that settles later with the given outcome. When it settles
  is decided by the environment (the \<open>Settle\<close> events below); an operation that never
  settles is one whose \<open>Settle\<close> event never comes.
\<close>

datatype behaviour = Throws val | Returns outcome

fun result_of :: "behaviour \<Rightarrow> outcome" where
  "result_of (Throws e) = Rejected e"
| "result_of (Returns out) = out"

section \<open>PromisePool\<close>

text \<open>
  \<^verbatim>\<open>
  class PromisePool {
      constructor(maxConcurrent) {
          this.maxConcurrent = maxConcurrent;
          this.running = 0;
          this.queue = [];
      }
      async add(promiseFunc) {
          if (this.running >= this.maxConcurrent) {
              await new Promise(resolve => this.queue.push(resolve));
          }
          this.running++;
          try {
              return await promiseFunc();
          } finally {
              this.running--;
              if (this.queue.length > 0) {
                  this.queue.shift()();
              }
          }
      }
  }
  \<close>
  An entry of \<open>pool_queue\<close> is the \<^verbatim>\<open>resolve\<close> function pushed at line 221; it is
  identified by the call of \<^verbatim>\<open>add\<close> that pushed it and carries the
  \<^verbatim>\<open>promiseFunc\<close> that call will invoke when it resumes.
\<close>

record PromisePool =
  maxConcurrent :: int
  running :: int
  pool_queue :: "(tid \<times> behaviour) list"

text \<open>
  The constructor stores its argument and has no \<^verbatim>\<open>throw\<close>; a thrown value would be
  \<open>Inl\<close>. The argument is taken to be an integer.
\<close>

definition new_PromisePool :: "int \<Rightarrow> val + PromisePool" where
  "new_PromisePool n = Inr \<lparr>maxConcurrent = n, running = 0, pool_queue = []\<rparr>"

text \<open>
  The phases of a call of \<^verbatim>\<open>add\<close>: suspended at line 221 with its \<^verbatim>\<open>resolve\<close> in
  the queue; \<^verbatim>\<open>resolve\<close> called but the continuation not yet run; suspended at line
  226 on an operation that will settle with the outcome; the operation settled and the
  continuation (the \<^verbatim>\<open>finally\<close> block) not yet run; returned.
\<close>

datatype phase = Waiting | Woken | Running outcome | Settled outcome | Done outcome

text \<open>
  The microtasks: the continuation of line 221 of a woken call, with the
  \<^verbatim>\<open>promiseFunc\<close> it will invoke; the continuation of line 226 of a call whose
  operation settled; a callback that calls \<^verbatim>\<open>add\<close>.
\<close>

datatype job = Resume tid behaviour | Finish tid outcome | CallAdd behaviour

text \<open>
  Around the object: \<open>requested\<close> logs the calls of \<^verbatim>\<open>add\<close> and \<open>phases\<close> holds the
  phase of each; \<open>microtasks\<close> is the microtask queue; \<open>started\<close> logs the calls of
  \<^verbatim>\<open>promiseFunc\<close> and \<open>finished\<close> the executions of the \<^verbatim>\<open>finally\<close> block.
\<close>

record pool_world = PromisePool +
  requested :: "behaviour list"
  phases :: "phase list"
  microtasks :: "job list"
  started :: "tid list"
  finished :: "tid list"

definition boot :: "PromisePool \<Rightarrow> pool_world" where
  "boot p = \<lparr>maxConcurrent = maxConcurrent p, running = running p,
     pool_queue = pool_queue p, requested = [], phases = [], microtasks = [],
     started = [], finished = []\<rparr>"

text \<open>
  The world right after \<^verbatim>\<open>new PromisePool(n)\<close>. The constructor has no failing branch,
  so the \<open>Inl\<close> case below is never taken.
\<close>

definition fresh_pool :: "int \<Rightarrow> pool_world" where
  "fresh_pool n = (case new_PromisePool n of Inr p \<Rightarrow> boot p
     | Inl e \<Rightarrow> boot \<lparr>maxConcurrent = n, running = 0, pool_queue = []\<rparr>)"

text \<open>Lines 227 to 232: the \<^verbatim>\<open>finally\<close> block, after which the call returns.\<close>

definition finally_block :: "tid \<Rightarrow> outcome \<Rightarrow> pool_world \<Rightarrow> pool_world" where
  "finally_block t out w =
     (let w1 = w\<lparr>running := running w - 1, finished := finished w @ [t]\<rparr>;
          w2 = (case pool_queue w1 of
                  [] \<Rightarrow> w1
                | (r, b) # rest \<Rightarrow>
                    w1\<lparr>pool_queue := rest,
                       phases := (phases w1)[r := Woken],
                       microtasks := microtasks w1 @ [Resume r b]\<rparr>)
      in w2\<lparr>phases := (phases w2)[t := Done out]\<rparr>)"

text \<open>Lines 224 to 226: take a slot and invoke the operation.\<close>

definition start :: "tid \<Rightarrow> behaviour \<Rightarrow> pool_world \<Rightarrow> pool_world" where
  "start t b w =
     (let w1 = w\<lparr>running := running w + 1, started := started w @ [t]\<rparr>
      in case b of
           Throws e \<Rightarrow> finally_block t (Rejected e) w1
         | Returns out \<Rightarrow> w1\<lparr>phases := (phases w1)[t := Running out]\<rparr>)"

text \<open>A call of \<^verbatim>\<open>add\<close>, up to its first suspension; it returns its promise.\<close>

definition add :: "behaviour \<Rightarrow> pool_world \<Rightarrow> tid \<times> pool_world" where
  "add b w =
     (let t = length (phases w);
          w0 = w\<lparr>requested := requested w @ [b], phases := phases w @ [Waiting]\<rparr>
      in (t, if running w0 \<ge> maxConcurrent w0
             then w0\<lparr>pool_queue := pool_queue w0 @ [(t, b)]\<rparr>
             else start t b w0))"

text \<open>The promise returned by the operation of call \<open>t\<close> settles.\<close>

definition settle :: "tid \<Rightarrow> pool_world \<Rightarrow> pool_world" where
  "settle t w =
     (if t < length (phases w)
      then (case phases w ! t of
              Running out \<Rightarrow>
                w\<lparr>phases := (phases w)[t := Settled out],
                  microtasks := microtasks w @ [Finish t out]\<rparr>
            | _ \<Rightarrow> w)
      else w)"

fun run_job :: "job \<Rightarrow> pool_world \<Rightarrow> pool_world" where
  "run_job (Resume t b) w = start t b w"
| "run_job (Finish t out) w = finally_block t out w"
| "run_job (CallAdd b) w = snd (add b w)"

text \<open>
  The events: a synchronous call \<^verbatim>\<open>pool.add(f)\<close>; \<^verbatim>\<open>queueMicrotask(() => pool.add(f))\<close>;
  the settlement of the operation of a call; the event loop running the oldest microtask.
\<close>

datatype event = Add behaviour | Defer behaviour | Settle tid | Tick

fun step :: "event \<Rightarrow> pool_world \<Rightarrow> pool_world" where
  "step (Add b) w = snd (add b w)"
| "step (Defer b) w = w\<lparr>microtasks := microtasks w @ [CallAdd b]\<rparr>"
| "step (Settle t) w = settle t w"
| "step Tick w =
     (case microtasks w of
        [] \<Rightarrow> w
      | j # js \<Rightarrow> run_job j (w\<lparr>microtasks := js\<rparr>))"

definition run :: "event list \<Rightarrow> pool_world \<Rightarrow> pool_world" where
  "run evs w = fold step evs w"

section \<open>PromiseQueue\<close>

text \<open>
  \<^verbatim>\<open>
  class PromiseQueue {
      constructor() {
          this.queue = [];
          this.processing = false;
      }
      enqueue(promiseFunc) {
          return new Promise((resolve, reject) => {
              this.queue.push({ promiseFunc, resolve, reject });
              this.processQueue();
          });
      }
      async processQueue() {
          if (this.processing) return;
          this.processing = true;
          while (this.queue.length > 0) {
              const { promiseFunc, resolve, reject } = this.queue.shift();
              try {
                  const result = await promiseFunc();
                  resolve(result);
              } catch (error) {
                  reject(error);
              }
          }
          this.processing = false;
      }
  }
  \<close>
  An entry of \<open>queue\<close> is the object pushed at line 188: the \<^verbatim>\<open>promiseFunc\<close> and
  the \<^verbatim>\<open>resolve\<close>/\<^verbatim>\<open>reject\<close> pair of the promise that \<^verbatim>\<open>enqueue\<close> returns,
  identified by the call of \<^verbatim>\<open>enqueue\<close>.
\<close>

record PromiseQueue =
  queue :: "(tid \<times> behaviour) list"
  processing :: bool

definition new_PromiseQueue :: PromiseQueue where
  "new_PromiseQueue = \<lparr>queue = [], processing = False\<rparr>"

text \<open>
  Around the object: \<open>submitted\<close> logs the calls of \<^verbatim>\<open>enqueue\<close>; \<open>awaiting\<close> holds
  the activations of \<^verbatim>\<open>processQueue\<close> suspended at line 200, each with the task it
  awaits and the outcome that task's operation will have; \<open>reactions\<close> is the microtask
  queue, holding the continuations of line 200 whose operation has settled; \<open>invoked\<close>
  logs the calls of \<^verbatim>\<open>promiseFunc\<close> and \<open>settlements\<close> the calls of
  \<^verbatim>\<open>resolve\<close> and \<^verbatim>\<open>reject\<close>.
\<close>

record queue_world = PromiseQueue +
  submitted :: "behaviour list"
  awaiting :: "(tid \<times> outcome) list"
  reactions :: "(tid \<times> outcome) list"
  invoked :: "tid list"
  settlements :: "(tid \<times> outcome) list"

definition fresh_queue :: queue_world where
  "fresh_queue = \<lparr>queue = queue new_PromiseQueue, processing = processing new_PromiseQueue,
     submitted = [], awaiting = [], reactions = [], invoked = [], settlements = []\<rparr>"

text \<open>
  Lines 197 to 207: the loop, from its test up to the next suspension or its end. An
  operation that throws synchronously is rejected at line 203 and the loop goes on.
\<close>

function process_loop :: "queue_world \<Rightarrow> queue_world" where
  "process_loop w =
     (case queue w of
        [] \<Rightarrow> w\<lparr>processing := False\<rparr>
      | (t, b) # rest \<Rightarrow>
          (let w1 = w\<lparr>queue := rest, invoked := invoked w @ [t]\<rparr>
           in case b of
                Throws e \<Rightarrow>
                  process_loop (w1\<lparr>settlements := settlements w1 @ [(t, Rejected e)]\<rparr>)
              | Returns out \<Rightarrow> w1\<lparr>awaiting := awaiting w1 @ [(t, out)]\<rparr>))"
  by pat_completeness auto
termination
  by (relation "measure (\<lambda>w. length (queue w))") auto

declare process_loop.simps [simp del]

text \<open>Lines 194 and 195, then the loop.\<close>

definition processQueue :: "queue_world \<Rightarrow> queue_world" where
  "processQueue w =
     (if processing w then w else process_loop (w\<lparr>processing := True\<rparr>))"

text \<open>Lines 187 to 190; the promise returned is identified by the call.\<close>

definition enqueue :: "behaviour \<Rightarrow> queue_world \<Rightarrow> tid \<times> queue_world" where
  "enqueue b w =
     (let t = length (submitted w);
          w1 = w\<lparr>submitted := submitted w @ [b], queue := queue w @ [(t, b)]\<rparr>
      in (t, processQueue w1))"

text \<open>
  The continuation of line 200: \<^verbatim>\<open>resolve(result)\<close> at line 201 or
  \<^verbatim>\<open>reject(error)\<close> at line 203, then the loop again.
\<close>

definition resume_loop :: "tid \<Rightarrow> outcome \<Rightarrow> queue_world \<Rightarrow> queue_world" where
  "resume_loop t out w = process_loop (w\<lparr>settlements := settlements w @ [(t, out)]\<rparr>)"

text \<open>
  The events: a call \<^verbatim>\<open>q.enqueue(f)\<close>; the settlement of the operation of an awaited
  task; the event loop running the oldest microtask.
\<close>

datatype queue_event = Enqueue behaviour | QSettle tid | QTick

fun qstep :: "queue_event \<Rightarrow> queue_world \<Rightarrow> queue_world" where
  "qstep (Enqueue b) w = snd (enqueue b w)"
| "qstep (QSettle t) w =
     (case map_of (awaiting w) t of
        None \<Rightarrow> w
      | Some out \<Rightarrow>
          w\<lparr>awaiting := filter (\<lambda>p. fst p \<noteq> t) (awaiting w),
            reactions := reactions w @ [(t, out)]\<rparr>)"
| "qstep QTick w =
     (case reactions w of
        [] \<Rightarrow> w
      | (t, out) # js \<Rightarrow> resume_loop t out (w\<lparr>reactions := js\<rparr>))"

definition qrun :: "queue_event list \<Rightarrow> queue_world \<Rightarrow> queue_world" where
  "qrun evs w = fold qstep evs w"

text \<open>
  The promise of call \<open>t\<close>: pending, or settled by the first call of its
  \<^verbatim>\<open>resolve\<close> or \<^verbatim>\<open>reject\<close>.
\<close>

definition handle :: "queue_world \<Rightarrow> tid \<Rightarrow> outcome option" where
  "handle w t = map_of (settlements w) t"

section \<open>Properties of the PromiseQueue model\<close>

subsection \<open>The loop, one iteration at a time\<close>

lemma process_loop_Nil:
  "queue w = [] \<Longrightarrow> process_loop w = w\<lparr>processing := False\<rparr>"
  by (simp add: process_loop.simps)

lemma process_loop_Throws:
  "queue w = (t, Throws e) # rest \<Longrightarrow>
   process_loop w = process_loop (w\<lparr>queue := rest, invoked := invoked w @ [t],
     settlements := settlements w @ [(t, Rejected e)]\<rparr>)"
  by (subst process_loop.simps) simp

lemma process_loop_Returns:
  "queue w = (t, Returns out) # rest \<Longrightarrow>
   process_loop w = w\<lparr>queue := rest, invoked := invoked w @ [t],
     awaiting := awaiting w @ [(t, out)]\<rparr>"
  by (subst process_loop.simps) simp

subsection \<open>The invariant of the reachable states\<close>

text \<open>
  Every task is in exactly one place, and the places are ordered: the tasks whose
  promise was settled, then the task whose continuation is a pending microtask, then the
  task that is awaited, then the queued tasks; together they are the submitted tasks in
  submission order, each with the outcome of its own operation. While \<open>processing\<close> is
  set exactly one task is between invocation and settlement.
\<close>

definition pipeline :: "queue_world \<Rightarrow> (tid \<times> outcome) list" where
  "pipeline w = settlements w @ reactions w @ awaiting w @
     map (\<lambda>(t, b). (t, result_of b)) (queue w)"

definition qinv :: "queue_world \<Rightarrow> bool" where
  "qinv w \<longleftrightarrow>
     pipeline w = enumerate 0 (map result_of (submitted w)) \<and>
     invoked w = map fst (settlements w @ reactions w @ awaiting w) \<and>
     (if processing w then length (awaiting w) + length (reactions w) = 1
      else queue w = [] \<and> awaiting w = [] \<and> reactions w = [])"

lemma process_loop_keeps:
  "submitted (process_loop w) = submitted w \<and> reactions (process_loop w) = reactions w"
proof (induction "queue w" arbitrary: w)
  case Nil
  then show ?case by (simp add: process_loop_Nil)
next
  case (Cons p rest)
  obtain t b where p: "p = (t, b)" by (cases p)
  from Cons(2) p have q: "queue w = (t, b) # rest" by simp
  show ?case
  proof (cases b)
    case (Throws e)
    with q Cons(1) show ?thesis by (simp add: process_loop_Throws)
  next
    case (Returns out)
    with q show ?thesis by (simp add: process_loop_Returns)
  qed
qed

lemma process_loop_pipeline:
  "awaiting w = [] \<Longrightarrow> reactions w = [] \<Longrightarrow> pipeline (process_loop w) = pipeline w"
proof (induction "queue w" arbitrary: w)
  case Nil
  then show ?case by (simp add: process_loop_Nil pipeline_def)
next
  case (Cons p rest)
  obtain t b where p: "p = (t, b)" by (cases p)
  from Cons(2) p have q: "queue w = (t, b) # rest" by simp
  show ?case
  proof (cases b)
    case (Throws e)
    let ?w' = "w\<lparr>queue := rest, invoked := invoked w @ [t],
      settlements := settlements w @ [(t, Rejected e)]\<rparr>"
    have "pipeline (process_loop ?w') = pipeline ?w'"
      using Cons(3,4) by (intro Cons(1)) simp_all
    with q Throws Cons(3,4) show ?thesis by (simp add: process_loop_Throws pipeline_def)
  next
    case (Returns out)
    with q Cons(3,4) show ?thesis by (simp add: process_loop_Returns pipeline_def)
  qed
qed

lemma process_loop_invoked:
  "awaiting w = [] \<Longrightarrow> invoked w = map fst (settlements w) \<Longrightarrow>
   invoked (process_loop w) =
     map fst (settlements (process_loop w) @ awaiting (process_loop w))"
proof (induction "queue w" arbitrary: w)
  case Nil
  then show ?case by (simp add: process_loop_Nil)
next
  case (Cons p rest)
  obtain t b where p: "p = (t, b)" by (cases p)
  from Cons(2) p have q: "queue w = (t, b) # rest" by simp
  show ?case
  proof (cases b)
    case (Throws e)
    let ?w' = "w\<lparr>queue := rest, invoked := invoked w @ [t],
      settlements := settlements w @ [(t, Rejected e)]\<rparr>"
    have "invoked (process_loop ?w') =
      map fst (settlements (process_loop ?w') @ awaiting (process_loop ?w'))"
      using Cons(3,4) by (intro Cons(1)) simp_all
    with q Throws show ?thesis by (simp add: process_loop_Throws)
  next
    case (Returns out)
    with q Cons(3,4) show ?thesis by (simp add: process_loop_Returns)
  qed
qed

lemma process_loop_flag:
  "awaiting w = [] \<Longrightarrow> processing w \<Longrightarrow>
   (if processing (process_loop w) then length (awaiting (process_loop w)) = 1
    else queue (process_loop w) = [] \<and> awaiting (process_loop w) = [])"
proof (induction "queue w" arbitrary: w)
  case Nil
  then show ?case by (simp add: process_loop_Nil)
next
  case (Cons p rest)
  obtain t b where p: "p = (t, b)" by (cases p)
  from Cons(2) p have q: "queue w = (t, b) # rest" by simp
  show ?case
  proof (cases b)
    case (Throws e)
    let ?w' = "w\<lparr>queue := rest, invoked := invoked w @ [t],
      settlements := settlements w @ [(t, Rejected e)]\<rparr>"
    have "if processing (process_loop ?w') then length (awaiting (process_loop ?w')) = 1
      else queue (process_loop ?w') = [] \<and> awaiting (process_loop ?w') = []"
      using Cons(3,4) by (intro Cons(1)) simp_all
    with q Throws show ?thesis by (simp only: process_loop_Throws)
  next
    case (Returns out)
    with q Cons(3,4) show ?thesis by (simp add: process_loop_Returns)
  qed
qed

lemma qinv_process_loop:
  assumes "pipeline w = enumerate 0 (map result_of (submitted w))"
    and "invoked w = map fst (settlements w)"
    and "awaiting w = []" and "reactions w = []" and "processing w"
  shows "qinv (process_loop w)"
  using assms process_loop_keeps [of w] process_loop_pipeline [of w]
    process_loop_invoked [of w] process_loop_flag [of w]
  by (simp add: qinv_def)

lemma qinv_fresh: "qinv fresh_queue"
  by (simp add: qinv_def fresh_queue_def new_PromiseQueue_def pipeline_def)

lemma qinv_enqueue: "qinv w \<Longrightarrow> qinv (snd (enqueue b w))"
proof (cases "processing w")
  case True
  assume "qinv w"
  with True show ?thesis
    by (simp add: qinv_def enqueue_def processQueue_def pipeline_def enumerate_append_eq Let_def)
next
  case False
  assume inv: "qinv w"
  let ?w1 = "w\<lparr>submitted := submitted w @ [b],
     queue := queue w @ [(length (submitted w), b)], processing := True\<rparr>"
  have "qinv (process_loop ?w1)"
    using inv False
    by (intro qinv_process_loop) (auto simp: qinv_def pipeline_def enumerate_append_eq)
  with False show ?thesis by (simp add: enqueue_def processQueue_def Let_def)
qed

lemma qinv_QSettle: "qinv w \<Longrightarrow> qinv (qstep (QSettle t) w)"
proof (cases "map_of (awaiting w) t")
  case None
  assume "qinv w"
  with None show ?thesis by simp
next
  case (Some out)
  assume inv: "qinv w"
  from Some have ne: "awaiting w \<noteq> []" by auto
  with inv have p: "processing w" by (auto simp: qinv_def split: if_splits)
  with inv ne have len: "length (awaiting w) = 1" "reactions w = []"
    by (cases "awaiting w"; simp add: qinv_def)+
  then obtain a where a: "awaiting w = [a]" by (cases "awaiting w") auto
  with Some have "a = (t, out)" by (cases a) (auto split: if_splits)
  with a inv len p Some show ?thesis
    by (simp add: qinv_def pipeline_def)
qed

lemma qinv_QTick: "qinv w \<Longrightarrow> qinv (qstep QTick w)"
proof (cases "reactions w")
  case Nil
  assume "qinv w"
  with Nil show ?thesis by simp
next
  case (Cons r js)
  assume inv: "qinv w"
  obtain t out where r: "r = (t, out)" by (cases r)
  from inv Cons have p: "processing w" by (auto simp: qinv_def split: if_splits)
  with inv Cons have e: "js = []" "awaiting w = []" by (auto simp: qinv_def)
  let ?w1 = "w\<lparr>reactions := [], settlements := settlements w @ [(t, out)]\<rparr>"
  have "qinv (process_loop ?w1)"
    using inv Cons r p e
    by (intro qinv_process_loop) (auto simp: qinv_def pipeline_def)
  with Cons r e show ?thesis by (simp add: resume_loop_def)
qed

lemma qinv_qstep: "qinv w \<Longrightarrow> qinv (qstep ev w)"
proof (cases ev)
  case (Enqueue b)
  assume "qinv w"
  with Enqueue show ?thesis by (simp add: qinv_enqueue)
next
  case (QSettle t)
  assume "qinv w"
  with QSettle show ?thesis by (simp only: qinv_QSettle)
next
  case QTick
  assume "qinv w"
  with QTick show ?thesis by (simp only: qinv_QTick)
qed

lemma qinv_qrun_from: "qinv w \<Longrightarrow> qinv (qrun evs w)"
  unfolding qrun_def by (induction evs arbitrary: w) (simp_all add: qinv_qstep)

lemma qinv_reachable: "qinv (qrun evs fresh_queue)"
  by (rule qinv_qrun_from [OF qinv_fresh])

subsection \<open>Running the queue to quiescence\<close>

text \<open>
  \<open>qdrain\<close> is the environment in which every operation settles: it runs the pending
  microtask if there is one, settles the awaited operation otherwise, and stops when
  neither exists.
\<close>

definition backlog :: "queue_world \<Rightarrow> nat" where
  "backlog w = 3 * length (queue w) + 2 * length (awaiting w) + length (reactions w)"

lemma process_loop_backlog: "backlog (process_loop w) \<le> backlog w"
proof (induction "queue w" arbitrary: w)
  case Nil
  then show ?case by (simp add: process_loop_Nil backlog_def)
next
  case (Cons p rest)
  obtain t b where p: "p = (t, b)" by (cases p)
  from Cons(2) p have q: "queue w = (t, b) # rest" by simp
  show ?case
  proof (cases b)
    case (Throws e)
    let ?w' = "w\<lparr>queue := rest, invoked := invoked w @ [t],
      settlements := settlements w @ [(t, Rejected e)]\<rparr>"
    have "backlog (process_loop ?w') \<le> backlog ?w'"
      by (intro Cons(1)) simp
    with q Throws show ?thesis by (simp add: process_loop_Throws backlog_def)
  next
    case (Returns out)
    with q show ?thesis by (simp add: process_loop_Returns backlog_def)
  qed
qed

function qdrain :: "queue_world \<Rightarrow> queue_world" where
  "qdrain w =
     (case reactions w of
        r # rs \<Rightarrow> qdrain (qstep QTick w)
      | [] \<Rightarrow>
          (case awaiting w of
             (t, out) # as \<Rightarrow> qdrain (qstep (QSettle t) w)
           | [] \<Rightarrow> w))"
  by pat_completeness auto
termination
proof (relation "measure backlog")
  show "wf (measure backlog)" by simp
next
  fix w :: queue_world and r rs
  assume r: "reactions w = r # rs"
  obtain t out where "r = (t, out)" by (cases r)
  with r have "backlog (qstep QTick w) \<le>
      backlog (w\<lparr>reactions := rs, settlements := settlements w @ [(t, out)]\<rparr>)"
    using process_loop_backlog
      [of "w\<lparr>reactions := rs, settlements := settlements w @ [(t, out)]\<rparr>"]
    by (simp add: resume_loop_def)
  with r show "(qstep QTick w, w) \<in> measure backlog"
    by (simp add: backlog_def)
next
  fix w :: queue_world and p as t out
  assume "reactions w = []" "awaiting w = p # as" "(t, out) = p"
  moreover have "2 * length (filter (\<lambda>p. fst p \<noteq> t) as) < Suc (2 * length as)"
    using length_filter_le [of "\<lambda>p. fst p \<noteq> t" as] by linarith
  ultimately show "(qstep (QSettle t) w, w) \<in> measure backlog"
    by (auto simp: backlog_def)
qed

declare qdrain.simps [simp del]

lemma qdrain_tick: "reactions w \<noteq> [] \<Longrightarrow> qdrain w = qdrain (qstep QTick w)"
  by (subst qdrain.simps) (simp split: list.split)

lemma qdrain_settle:
  "reactions w = [] \<Longrightarrow> awaiting w = (t, out) # as \<Longrightarrow>
   qdrain w = qdrain (qstep (QSettle t) w)"
  by (subst qdrain.simps) simp

lemma qdrain_stop: "reactions w = [] \<Longrightarrow> awaiting w = [] \<Longrightarrow> qdrain w = w"
  by (subst qdrain.simps) simp

lemma qdrain_cases [case_names tick settle stop]:
  assumes "\<And>w. reactions w \<noteq> [] \<Longrightarrow> P (qstep QTick w) \<Longrightarrow> P w"
    and "\<And>w t out as. reactions w = [] \<Longrightarrow> awaiting w = (t, out) # as \<Longrightarrow>
           P (qstep (QSettle t) w) \<Longrightarrow> P w"
    and "\<And>w. reactions w = [] \<Longrightarrow> awaiting w = [] \<Longrightarrow> P w"
  shows "P w"
proof (induction w rule: qdrain.induct)
  case (1 w)
  show ?case
  proof (cases "reactions w")
    case (Cons r rs)
    with "1.IH"(2) [OF Cons] assms(1) [of w] show ?thesis by simp
  next
    case Nil
    show ?thesis
    proof (cases "awaiting w")
      case Nil
      with \<open>reactions w = []\<close> assms(3) show ?thesis by simp
    next
      case (Cons p as)
      obtain t out where p: "p = (t, out)" by (cases p)
      from "1.IH"(1) [OF \<open>reactions w = []\<close> Cons p [symmetric]]
      have "P (qstep (QSettle t) w)" .
      with assms(2) [OF \<open>reactions w = []\<close>] Cons p show ?thesis by simp
    qed
  qed
qed

lemma qdrain_quiet: "reactions (qdrain w) = [] \<and> awaiting (qdrain w) = []"
proof (induction w rule: qdrain_cases)
  case (tick w)
  then show ?case by (simp add: qdrain_tick)
next
  case (settle w t out as)
  then show ?case by (simp add: qdrain_settle)
next
  case (stop w)
  then show ?case by (simp add: qdrain_stop)
qed

lemma qstep_submitted:
  "submitted (qstep QTick w) = submitted w \<and> submitted (qstep (QSettle t) w) = submitted w"
  using process_loop_keeps by (simp add: resume_loop_def split: list.split option.split)

lemma qdrain_keeps: "qinv w \<Longrightarrow> qinv (qdrain w) \<and> submitted (qdrain w) = submitted w"
proof (induction w rule: qdrain_cases)
  case (tick w)
  from tick.prems have "qinv (qstep QTick w)" by (rule qinv_qstep)
  with tick(1,2) qstep_submitted [of w] show ?case by (simp add: qdrain_tick)
next
  case (settle w t out as)
  from settle.prems have "qinv (qstep (QSettle t) w)" by (rule qinv_qstep)
  with settle(1,2,3) qstep_submitted [of w t] show ?case by (simp add: qdrain_settle)
next
  case (stop w)
  then show ?case by (simp add: qdrain_stop)
qed

lemma qdrain_done:
  assumes "qinv w"
  shows "settlements (qdrain w) = enumerate 0 (map result_of (submitted w))"
    and "invoked (qdrain w) = [0..<length (submitted w)]"
    and "queue (qdrain w) = []"
proof -
  let ?d = "qdrain w"
  from assms qdrain_keeps have inv: "qinv ?d" and sub: "submitted ?d = submitted w"
    by simp_all
  from qdrain_quiet have quiet: "reactions ?d = []" "awaiting ?d = []" by simp_all
  with inv have idle: "\<not> processing ?d" by (auto simp: qinv_def)
  with inv show q: "queue ?d = []" by (simp add: qinv_def)
  with inv quiet sub show s: "settlements ?d = enumerate 0 (map result_of (submitted w))"
    by (simp add: qinv_def pipeline_def)
  from inv quiet have "invoked ?d = map fst (settlements ?d)" by (simp add: qinv_def)
  with s show "invoked ?d = [0..<length (submitted w)]" by (simp add: map_fst_enumerate)
qed

lemma qinv_invoked_queue:
  assumes "qinv w"
  shows "invoked w @ map fst (queue w) = [0..<length (submitted w)]"
proof -
  from assms have a: "pipeline w = enumerate 0 (map result_of (submitted w))"
    and b: "invoked w = map fst (settlements w @ reactions w @ awaiting w)"
    by (simp_all add: qinv_def)
  have "map fst (pipeline w) = invoked w @ map fst (queue w)"
    unfolding b by (simp add: pipeline_def case_prod_unfold comp_def)
  moreover have "map fst (pipeline w) = [0..<length (submitted w)]"
    unfolding a by (simp add: map_fst_enumerate)
  ultimately show ?thesis by simp
qed

subsection \<open>The handles after quiescence\<close>

lemma map_of_enumerate:
  "t < length xs \<Longrightarrow> map_of (enumerate 0 xs) t = Some (xs ! t)"
  by (intro map_of_is_SomeI) (simp_all add: distinct_enumerate in_set_enumerate_eq map_fst_enumerate)

lemma queue_drained:
  "map (handle (qdrain (qrun evs fresh_queue))) [0..<length (submitted (qrun evs fresh_queue))] =
   map (Some \<circ> result_of) (submitted (qrun evs fresh_queue))"
  by (intro nth_equalityI)
    (simp_all add: handle_def qdrain_done(1) [OF qinv_reachable] map_of_enumerate)

subsection \<open>The submissions of an event sequence\<close>

text \<open>
  \<open>enqueued evs\<close> lists the operations of the calls of \<^verbatim>\<open>enqueue\<close> among the events
  \<open>evs\<close>, in the order of the calls. The log of invoked operations only grows.
\<close>

fun enqueued :: "queue_event list \<Rightarrow> behaviour list" where
  "enqueued [] = []"
| "enqueued (Enqueue b # evs) = b # enqueued evs"
| "enqueued (ev # evs) = enqueued evs"

lemma submitted_qstep: "submitted (qstep ev w) = submitted w @ enqueued [ev]"
proof (cases ev)
  case (Enqueue b)
  then show ?thesis
    using process_loop_keeps by (simp add: enqueue_def processQueue_def Let_def)
next
  case (QSettle t)
  then show ?thesis by (simp split: option.split)
next
  case QTick
  then show ?thesis
    using process_loop_keeps by (simp add: resume_loop_def split: list.split)
qed

lemma enqueued_Cons: "enqueued (ev # evs) = enqueued [ev] @ enqueued evs"
  by (cases ev) simp_all

lemma submitted_qrun: "submitted (qrun evs w) = submitted w @ enqueued evs"
proof (induction evs arbitrary: w)
  case Nil
  show ?case by (simp add: qrun_def)
next
  case (Cons ev evs)
  have "submitted (qrun (ev # evs) w) = submitted (qrun evs (qstep ev w))"
    by (simp add: qrun_def)
  also have "\<dots> = submitted (qstep ev w) @ enqueued evs" by (rule Cons.IH)
  also have "\<dots> = submitted w @ enqueued (ev # evs)"
    by (simp add: submitted_qstep enqueued_Cons [of ev evs])
  finally show ?case .
qed

lemma submitted_reachable: "submitted (qrun evs fresh_queue) = enqueued evs"
  using submitted_qrun [of evs fresh_queue] by (simp add: fresh_queue_def)

lemma process_loop_grows: "prefix (invoked w) (invoked (process_loop w))"
proof (induction "queue w" arbitrary: w)
  case Nil
  then show ?case by (simp add: process_loop_Nil)
next
  case (Cons p rest)
  obtain t b where p: "p = (t, b)" by (cases p)
  from Cons(2) p have q: "queue w = (t, b) # rest" by simp
  show ?case
  proof (cases b)
    case (Throws e)
    let ?w' = "w\<lparr>queue := rest, invoked := invoked w @ [t],
      settlements := settlements w @ [(t, Rejected e)]\<rparr>"
    have "prefix (invoked ?w') (invoked (process_loop ?w'))"
      by (intro Cons(1)) simp
    then have "prefix (invoked w) (invoked (process_loop ?w'))"
      by (simp add: append_prefixD)
    with q Throws show ?thesis by (simp add: process_loop_Throws)
  next
    case (Returns out)
    with q show ?thesis by (simp add: process_loop_Returns)
  qed
qed

lemma qstep_grows: "prefix (invoked w) (invoked (qstep ev w))"
proof (cases ev)
  case (Enqueue b)
  with process_loop_grows [of "w\<lparr>submitted := submitted w @ [b],
      queue := queue w @ [(length (submitted w), b)], processing := True\<rparr>"]
  show ?thesis by (simp add: enqueue_def processQueue_def Let_def)
next
  case (QSettle t)
  then show ?thesis by (simp split: option.split)
next
  case QTick
  show ?thesis
  proof (cases "reactions w")
    case Nil
    with QTick show ?thesis by simp
  next
    case (Cons r rs)
    obtain t out where "r = (t, out)" by (cases r)
    with QTick Cons process_loop_grows [of "w\<lparr>reactions := rs,
        settlements := settlements w @ [(t, out)]\<rparr>"]
    show ?thesis by (simp add: resume_loop_def)
  qed
qed

lemma qrun_grows: "prefix (invoked w) (invoked (qrun evs w))"
proof (induction evs arbitrary: w)
  case Nil
  show ?case by (simp add: qrun_def)
next
  case (Cons ev evs)
  have "prefix (invoked (qstep ev w)) (invoked (qrun evs (qstep ev w)))" by (rule Cons.IH)
  with qstep_grows [of w ev] have "prefix (invoked w) (invoked (qrun evs (qstep ev w)))"
    by (rule prefix_order.trans)
  then show ?case by (simp add: qrun_def)
qed

lemma qrun_append: "qrun (evs @ evs') w = qrun evs' (qrun evs w)"
  by (simp add: qrun_def)

section \<open>Properties of the PromisePool model\<close>

subsection \<open>The invariant of the reachable states\<close>

text \<open>
  A call that is counted in \<open>running\<close> is one whose operation was invoked and whose
  \<^verbatim>\<open>finally\<close> block has not run. The queue holds exactly the calls that wait, without
  repetition; the \<open>Resume\<close> microtasks are exactly the woken calls and the \<open>Finish\<close>
  microtasks exactly the calls whose operation has settled.
\<close>

fun active :: "phase \<Rightarrow> bool" where
  "active (Running out) = True"
| "active (Settled out) = True"
| "active p = False"

fun resumes :: "job list \<Rightarrow> tid list" where
  "resumes [] = []"
| "resumes (Resume t b # js) = t # resumes js"
| "resumes (j # js) = resumes js"

fun finishes :: "job list \<Rightarrow> (tid \<times> outcome) list" where
  "finishes [] = []"
| "finishes (Finish t out # js) = (t, out) # finishes js"
| "finishes (j # js) = finishes js"

lemma resumes_append: "resumes (js @ ks) = resumes js @ resumes ks"
  by (induction js rule: resumes.induct) simp_all

lemma finishes_append: "finishes (js @ ks) = finishes js @ finishes ks"
  by (induction js rule: finishes.induct) simp_all

definition pool_ok :: "(tid \<times> behaviour) list \<Rightarrow> job list \<Rightarrow> phase list \<Rightarrow> int \<Rightarrow> bool" where
  "pool_ok q js ps n \<longleftrightarrow>
     distinct (map fst q) \<and>
     distinct (resumes js) \<and>
     distinct (map fst (finishes js)) \<and>
     (\<forall>t. t \<in> fst ` set q \<longleftrightarrow> t < length ps \<and> ps ! t = Waiting) \<and>
     (\<forall>t. t \<in> set (resumes js) \<longleftrightarrow> t < length ps \<and> ps ! t = Woken) \<and>
     (\<forall>t out. (t, out) \<in> set (finishes js) \<longleftrightarrow> t < length ps \<and> ps ! t = Settled out) \<and>
     n = int (length (filter active ps))"

definition pinv :: "pool_world \<Rightarrow> bool" where
  "pinv w = pool_ok (pool_queue w) (microtasks w) (phases w) (running w)"

lemma filter_update_length:
  "t < length xs \<Longrightarrow>
   length (filter P (xs[t := v])) + (if P (xs ! t) then 1 else 0) =
   length (filter P xs) + (if P v then 1 else 0)"
proof (induction xs arbitrary: t)
  case Nil
  then show ?case by simp
next
  case (Cons x xs)
  then show ?case by (cases t) auto
qed

lemma active_update_same:
  "t < length ps \<Longrightarrow> \<not> active (ps ! t) \<Longrightarrow> \<not> active v \<Longrightarrow>
   length (filter active (ps[t := v])) = length (filter active ps)"
  using filter_update_length [of t ps active v] by simp

lemma pool_okD:
  assumes "pool_ok q js ps n"
  shows "distinct (map fst q)" and "distinct (resumes js)"
    and "distinct (map fst (finishes js))"
    and "\<And>u. u \<in> fst ` set q \<longleftrightarrow> u < length ps \<and> ps ! u = Waiting"
    and "\<And>u. u \<in> set (resumes js) \<longleftrightarrow> u < length ps \<and> ps ! u = Woken"
    and "\<And>u x. (u, x) \<in> set (finishes js) \<longleftrightarrow> u < length ps \<and> ps ! u = Settled x"
    and "n = int (length (filter active ps))"
  using assms unfolding pool_ok_def by blast+

lemma ok_wake:
  assumes "pool_ok ((r, b) # rest) js ps n"
  shows "pool_ok rest (js @ [Resume r b]) (ps[r := Woken]) n"
proof -
  note inv = pool_okD [OF assms]
  from inv(4) [of r] have r: "r < length ps" "ps ! r = Waiting" by simp_all
  from inv(1) have nr: "r \<notin> fst ` set rest" by simp
  from inv(5) [of r] r have nw: "r \<notin> set (resumes js)" by simp
  have cnt: "length (filter active (ps[r := Woken])) = length (filter active ps)"
    using r by (simp add: active_update_same)
  show ?thesis
    unfolding pool_ok_def
  proof (intro conjI allI)
    show "distinct (map fst rest)" "distinct (resumes (js @ [Resume r b]))"
      "distinct (map fst (finishes (js @ [Resume r b])))"
      "n = int (length (filter active (ps[r := Woken])))"
      using inv(1,2,3,7) nw cnt by (simp_all add: resumes_append finishes_append)
  next
    fix u
    show "u \<in> fst ` set rest \<longleftrightarrow> u < length (ps[r := Woken]) \<and> ps[r := Woken] ! u = Waiting"
      using inv(4) [of u] r nr by (cases "u = r") (simp_all add: nth_list_update)
    show "u \<in> set (resumes (js @ [Resume r b])) \<longleftrightarrow>
        u < length (ps[r := Woken]) \<and> ps[r := Woken] ! u = Woken"
      using inv(5) [of u] r by (cases "u = r") (simp_all add: nth_list_update resumes_append)
    fix z
    show "(u, z) \<in> set (finishes (js @ [Resume r b])) \<longleftrightarrow>
        u < length (ps[r := Woken]) \<and> ps[r := Woken] ! u = Settled z"
      using inv(6) [of u z] r by (cases "u = r") (simp_all add: nth_list_update finishes_append)
  qed
qed

lemma ok_finish:
  assumes "pool_ok q (Finish t out # js) ps n"
  shows "pool_ok q js (ps[t := Done out]) (n - 1)"
proof -
  note all = pool_okD [OF assms]
  from all(6) [of t out] have t: "t < length ps" "ps ! t = Settled out" by simp_all
  from all(3) have "t \<notin> fst ` set (finishes js)" by simp
  then have nf: "(t, x) \<notin> set (finishes js)" for x by force
  have cnt: "length (filter active (ps[t := Done out])) + 1 = length (filter active ps)"
    using filter_update_length [OF t(1), of active "Done out"] t(2) by simp
  have inv:
    "\<And>u. u \<in> fst ` set q \<longleftrightarrow> u < length ps \<and> ps ! u = Waiting"
    "\<And>u. u \<in> set (resumes js) \<longleftrightarrow> u < length ps \<and> ps ! u = Woken"
    "\<And>u x. (u, x) \<in> set (finishes (Finish t out # js)) \<longleftrightarrow>
       u < length ps \<and> ps ! u = Settled x"
    using pool_okD(4,5,6) [OF assms(1)] by simp_all
  show ?thesis
    unfolding pool_ok_def
  proof (intro conjI allI)
    show "distinct (map fst q)" "distinct (resumes js)" "distinct (map fst (finishes js))"
      using pool_okD(1,2,3) [OF assms(1)] by simp_all
    show "n - 1 = int (length (filter active (ps[t := Done out])))"
      using pool_okD(7) [OF assms(1)] cnt by simp
  next
    fix u
    show "u \<in> fst ` set q \<longleftrightarrow>
        u < length (ps[t := Done out]) \<and> ps[t := Done out] ! u = Waiting"
      using inv(1) [of u] t by (cases "u = t") (simp_all add: nth_list_update)
    show "u \<in> set (resumes js) \<longleftrightarrow>
        u < length (ps[t := Done out]) \<and> ps[t := Done out] ! u = Woken"
      using inv(2) [of u] t by (cases "u = t") (simp_all add: nth_list_update)
    fix x
    show "(u, x) \<in> set (finishes js) \<longleftrightarrow>
        u < length (ps[t := Done out]) \<and> ps[t := Done out] ! u = Settled x"
      using inv(3) [of u x] t nf [of x] by (cases "u = t") (simp_all add: nth_list_update)
  qed
qed

lemma ok_resume:
  assumes "pool_ok q (Resume t b # js) ps n"
  shows "t < length ps" and "pool_ok q js (ps[t := Done x]) n"
proof -
  note all = pool_okD [OF assms]
  from all(5) [of t] show t: "t < length ps" by simp
  from all(5) [of t] have w: "ps ! t = Woken" by simp
  from all(2) have nr: "t \<notin> set (resumes js)" by simp
  have cnt: "length (filter active (ps[t := Done x])) = length (filter active ps)"
    using t w by (simp add: active_update_same)
  have inv:
    "\<And>u. u \<in> fst ` set q \<longleftrightarrow> u < length ps \<and> ps ! u = Waiting"
    "\<And>u. u \<in> set (resumes (Resume t b # js)) \<longleftrightarrow> u < length ps \<and> ps ! u = Woken"
    "\<And>u x. (u, x) \<in> set (finishes js) \<longleftrightarrow> u < length ps \<and> ps ! u = Settled x"
    using pool_okD(4,5,6) [OF assms(1)] by simp_all
  show "pool_ok q js (ps[t := Done x]) n"
    unfolding pool_ok_def
  proof (intro conjI allI)
    show "distinct (map fst q)" "distinct (resumes js)" "distinct (map fst (finishes js))"
      using pool_okD(1,2,3) [OF assms(1)] by simp_all
    show "n = int (length (filter active (ps[t := Done x])))"
      using pool_okD(7) [OF assms(1)] cnt by simp
  next
    fix u
    show "u \<in> fst ` set q \<longleftrightarrow>
        u < length (ps[t := Done x]) \<and> ps[t := Done x] ! u = Waiting"
      using inv(1) [of u] t w by (cases "u = t") (simp_all add: nth_list_update)
    show "u \<in> set (resumes js) \<longleftrightarrow>
        u < length (ps[t := Done x]) \<and> ps[t := Done x] ! u = Woken"
      using inv(2) [of u] t nr by (cases "u = t") (simp_all add: nth_list_update)
    fix y
    show "(u, y) \<in> set (finishes js) \<longleftrightarrow>
        u < length (ps[t := Done x]) \<and> ps[t := Done x] ! u = Settled y"
      using inv(3) [of u y] t w by (cases "u = t") (simp_all add: nth_list_update)
  qed
qed

lemma ok_calladd: "pool_ok q (CallAdd b # js) ps n \<Longrightarrow> pool_ok q js ps n"
  by (simp add: pool_ok_def)

lemma ok_defer: "pool_ok q js ps n \<Longrightarrow> pool_ok q (js @ [CallAdd b]) ps n"
  by (simp add: pool_ok_def resumes_append finishes_append)

lemma ok_rephase:
  assumes "pool_ok q js ps n" and "t < length ps" and "ps ! t = Done x"
    and "v = Done y \<and> k = 0 \<or> v = Running y \<and> k = 1"
  shows "pool_ok q js (ps[t := v]) (n + k)"
proof -
  have cnt: "int (length (filter active (ps[t := v]))) = int (length (filter active ps)) + k"
    using filter_update_length [OF assms(2), of active v] assms(3,4) by auto
  have inv:
    "\<And>u. u \<in> fst ` set q \<longleftrightarrow> u < length ps \<and> ps ! u = Waiting"
    "\<And>u. u \<in> set (resumes js) \<longleftrightarrow> u < length ps \<and> ps ! u = Woken"
    "\<And>u x. (u, x) \<in> set (finishes js) \<longleftrightarrow> u < length ps \<and> ps ! u = Settled x"
    using pool_okD(4,5,6) [OF assms(1)] by simp_all
  show ?thesis
    unfolding pool_ok_def
  proof (intro conjI allI)
    show "distinct (map fst q)" "distinct (resumes js)" "distinct (map fst (finishes js))"
      using pool_okD(1,2,3) [OF assms(1)] by simp_all
    show "n + k = int (length (filter active (ps[t := v])))"
      using pool_okD(7) [OF assms(1)] cnt by simp
  next
    fix u
    show "u \<in> fst ` set q \<longleftrightarrow> u < length (ps[t := v]) \<and> ps[t := v] ! u = Waiting"
      using inv(1) [of u] assms(2,3,4) by (cases "u = t") (auto simp: nth_list_update)
    show "u \<in> set (resumes js) \<longleftrightarrow> u < length (ps[t := v]) \<and> ps[t := v] ! u = Woken"
      using inv(2) [of u] assms(2,3,4) by (cases "u = t") (auto simp: nth_list_update)
    fix z
    show "(u, z) \<in> set (finishes js) \<longleftrightarrow>
        u < length (ps[t := v]) \<and> ps[t := v] ! u = Settled z"
      using inv(3) [of u z] assms(2,3,4) by (cases "u = t") (auto simp: nth_list_update)
  qed
qed

lemma ok_settle:
  assumes "pool_ok q js ps n" and "t < length ps" and "ps ! t = Running out"
  shows "pool_ok q (js @ [Finish t out]) (ps[t := Settled out]) n"
proof -
  have cnt: "length (filter active (ps[t := Settled out])) = length (filter active ps)"
    using filter_update_length [OF assms(2), of active "Settled out"] assms(3) by simp
  from pool_okD(6) [OF assms(1), of t] assms(3) have nf: "(t, x) \<notin> set (finishes js)" for x
    by simp
  then have nf': "t \<notin> fst ` set (finishes js)" by force
  have inv:
    "\<And>u. u \<in> fst ` set q \<longleftrightarrow> u < length ps \<and> ps ! u = Waiting"
    "\<And>u. u \<in> set (resumes js) \<longleftrightarrow> u < length ps \<and> ps ! u = Woken"
    "\<And>u x. (u, x) \<in> set (finishes js) \<longleftrightarrow> u < length ps \<and> ps ! u = Settled x"
    using pool_okD(4,5,6) [OF assms(1)] by simp_all
  show ?thesis
    unfolding pool_ok_def
  proof (intro conjI allI)
    show "distinct (map fst q)" "distinct (resumes (js @ [Finish t out]))"
      using pool_okD(1,2) [OF assms(1)] by (simp_all add: resumes_append)
    show "distinct (map fst (finishes (js @ [Finish t out])))"
      using pool_okD(3) [OF assms(1)] nf' by (simp add: finishes_append)
    show "n = int (length (filter active (ps[t := Settled out])))"
      using pool_okD(7) [OF assms(1)] cnt by simp
  next
    fix u
    show "u \<in> fst ` set q \<longleftrightarrow>
        u < length (ps[t := Settled out]) \<and> ps[t := Settled out] ! u = Waiting"
      using inv(1) [of u] assms(2,3) by (cases "u = t") (simp_all add: nth_list_update)
    show "u \<in> set (resumes (js @ [Finish t out])) \<longleftrightarrow>
        u < length (ps[t := Settled out]) \<and> ps[t := Settled out] ! u = Woken"
      using inv(2) [of u] assms(2,3)
      by (cases "u = t") (simp_all add: nth_list_update resumes_append)
    fix z
    show "(u, z) \<in> set (finishes (js @ [Finish t out])) \<longleftrightarrow>
        u < length (ps[t := Settled out]) \<and> ps[t := Settled out] ! u = Settled z"
      using inv(3) [of u z] assms(2,3) nf [of z]
      by (cases "u = t") (auto simp: nth_list_update finishes_append)
  qed
qed

lemma ok_grow:
  assumes "pool_ok q js ps n"
  shows "pool_ok (q @ [(length ps, b)]) js (ps @ [Waiting]) n"
    and "pool_ok q js (ps @ [Done x]) n"
proof -
  have inv:
    "\<And>u. u \<in> fst ` set q \<longleftrightarrow> u < length ps \<and> ps ! u = Waiting"
    "\<And>u. u \<in> set (resumes js) \<longleftrightarrow> u < length ps \<and> ps ! u = Woken"
    "\<And>u x. (u, x) \<in> set (finishes js) \<longleftrightarrow> u < length ps \<and> ps ! u = Settled x"
    using pool_okD(4,5,6) [OF assms(1)] by simp_all
  from inv(1) [of "length ps"] have fresh: "length ps \<notin> fst ` set q" by simp
  show "pool_ok (q @ [(length ps, b)]) js (ps @ [Waiting]) n"
    unfolding pool_ok_def
  proof (intro conjI allI)
    show "distinct (map fst (q @ [(length ps, b)]))" "distinct (resumes js)"
      "distinct (map fst (finishes js))" "n = int (length (filter active (ps @ [Waiting])))"
      using pool_okD(1,2,3,7) [OF assms] fresh by simp_all
  next
    fix u
    show "u \<in> fst ` set (q @ [(length ps, b)]) \<longleftrightarrow>
        u < length (ps @ [Waiting]) \<and> (ps @ [Waiting]) ! u = Waiting"
      using inv(1) [of u] by (cases "u = length ps") (auto simp: nth_append)
    show "u \<in> set (resumes js) \<longleftrightarrow>
        u < length (ps @ [Waiting]) \<and> (ps @ [Waiting]) ! u = Woken"
      using inv(2) [of u] by (cases "u = length ps") (auto simp: nth_append)
    fix z
    show "(u, z) \<in> set (finishes js) \<longleftrightarrow>
        u < length (ps @ [Waiting]) \<and> (ps @ [Waiting]) ! u = Settled z"
      using inv(3) [of u z] by (cases "u = length ps") (auto simp: nth_append)
  qed
  show "pool_ok q js (ps @ [Done x]) n"
    unfolding pool_ok_def
  proof (intro conjI allI)
    show "distinct (map fst q)" "distinct (resumes js)"
      "distinct (map fst (finishes js))" "n = int (length (filter active (ps @ [Done x])))"
      using pool_okD(1,2,3,7) [OF assms] by simp_all
  next
    fix u
    show "u \<in> fst ` set q \<longleftrightarrow> u < length (ps @ [Done x]) \<and> (ps @ [Done x]) ! u = Waiting"
      using inv(1) [of u] by (cases "u = length ps") (auto simp: nth_append)
    show "u \<in> set (resumes js) \<longleftrightarrow>
        u < length (ps @ [Done x]) \<and> (ps @ [Done x]) ! u = Woken"
      using inv(2) [of u] by (cases "u = length ps") (auto simp: nth_append)
    fix z
    show "(u, z) \<in> set (finishes js) \<longleftrightarrow>
        u < length (ps @ [Done x]) \<and> (ps @ [Done x]) ! u = Settled z"
      using inv(3) [of u z] by (cases "u = length ps") (auto simp: nth_append)
  qed
qed


lemma pinv_finally:
  assumes "pool_ok (pool_queue w) (microtasks w) ((phases w)[t := Done out]) (running w - 1)"
  shows "pinv (finally_block t out w)"
proof (cases "pool_queue w")
  case Nil
  with assms show ?thesis by (simp add: finally_block_def pinv_def)
next
  case (Cons p rest)
  obtain r b where p: "p = (r, b)" by (cases p)
  from assms Cons p
  have ok: "pool_ok ((r, b) # rest) (microtasks w) ((phases w)[t := Done out]) (running w - 1)"
    by simp
  from pool_okD(4) [OF ok, of r] have ne: "r \<noteq> t"
    by (auto simp: nth_list_update split: if_splits)
  from ok_wake [OF ok] Cons p ne show ?thesis
    by (simp add: finally_block_def pinv_def list_update_swap [of r t])
qed

lemma pinv_start:
  assumes "t < length (phases w)"
    and "pool_ok (pool_queue w) (microtasks w) ((phases w)[t := Done x]) (running w)"
  shows "pinv (start t b w)"
proof (cases b)
  case (Returns out)
  from ok_rephase [OF assms(2), of t x "Running out" out 1] assms(1) Returns
  show ?thesis by (simp add: start_def pinv_def)
next
  case (Throws e)
  from ok_rephase [OF assms(2), of t x "Done (Rejected e)" "Rejected e" 0] assms(1)
  have "pool_ok (pool_queue w) (microtasks w) ((phases w)[t := Done (Rejected e)]) (running w)"
    by simp
  then have "pinv (finally_block t (Rejected e)
      (w\<lparr>running := running w + 1, started := started w @ [t]\<rparr>))"
    by (intro pinv_finally) simp
  with Throws show ?thesis by (simp add: start_def)
qed

lemma pinv_add:
  assumes "pinv w"
  shows "pinv (snd (add b w))"
proof (cases "running w \<ge> maxConcurrent w")
  case True
  with assms ok_grow(1) [of "pool_queue w" "microtasks w" "phases w" "running w" b]
  show ?thesis by (simp add: pinv_def add_def Let_def)
next
  case False
  let ?w0 = "w\<lparr>requested := requested w @ [b], phases := phases w @ [Waiting]\<rparr>"
  from assms ok_grow(2) [of "pool_queue w" "microtasks w" "phases w" "running w" "Rejected 0"]
  have "pool_ok (pool_queue ?w0) (microtasks ?w0)
      ((phases ?w0)[length (phases w) := Done (Rejected 0)]) (running ?w0)"
    by (simp add: pinv_def)
  then have "pinv (start (length (phases w)) b ?w0)"
    by (intro pinv_start [where x = "Rejected 0"]) simp_all
  with False show ?thesis by (simp add: add_def Let_def)
qed

lemma pinv_settle:
  assumes "pinv w"
  shows "pinv (settle t w)"
proof (cases "t < length (phases w)")
  case False
  with assms show ?thesis by (simp add: settle_def)
next
  case True
  show ?thesis
  proof (cases "phases w ! t")
    case (Running out)
    from assms ok_settle [of "pool_queue w" "microtasks w" "phases w" "running w" t out]
      True Running
    show ?thesis by (simp add: settle_def pinv_def)
  qed (use assms True in \<open>simp_all add: settle_def\<close>)
qed

lemma pinv_tick:
  assumes "pinv w"
  shows "pinv (step Tick w)"
proof (cases "microtasks w")
  case Nil
  with assms show ?thesis by simp
next
  case (Cons j js)
  show ?thesis
  proof (cases j)
    case (Resume t b)
    from assms Cons Resume
    have ok: "pool_ok (pool_queue w) (Resume t b # js) (phases w) (running w)"
      by (simp add: pinv_def)
    from ok_resume(1) [OF ok] ok_resume(2) [OF ok, of "Rejected 0"]
    have "pinv (start t b (w\<lparr>microtasks := js\<rparr>))"
      by (intro pinv_start [where x = "Rejected 0"]) simp_all
    with Cons Resume show ?thesis by simp
  next
    case (Finish t out)
    from assms Cons Finish
    have ok: "pool_ok (pool_queue w) (Finish t out # js) (phases w) (running w)"
      by (simp add: pinv_def)
    from ok_finish [OF ok]
    have "pinv (finally_block t out (w\<lparr>microtasks := js\<rparr>))"
      by (intro pinv_finally) simp
    with Cons Finish show ?thesis by simp
  next
    case (CallAdd b)
    from assms Cons CallAdd
    have "pool_ok (pool_queue w) (CallAdd b # js) (phases w) (running w)"
      by (simp add: pinv_def)
    then have "pinv (w\<lparr>microtasks := js\<rparr>)"
      by (simp add: pinv_def ok_calladd [of _ b])
    then have "pinv (snd (add b (w\<lparr>microtasks := js\<rparr>)))" by (rule pinv_add)
    with Cons CallAdd show ?thesis by simp
  qed
qed

lemma pinv_step: "pinv w \<Longrightarrow> pinv (step ev w)"
proof (cases ev)
  case (Add b)
  assume "pinv w"
  with Add show ?thesis by (simp add: pinv_add)
next
  case (Defer b)
  assume "pinv w"
  with Defer show ?thesis by (simp add: pinv_def ok_defer)
next
  case (Settle t)
  assume "pinv w"
  with Settle show ?thesis by (simp add: pinv_settle)
next
  case Tick
  assume "pinv w"
  with Tick show ?thesis by (simp only: pinv_tick)
qed

lemma pinv_fresh: "pinv (fresh_pool n)"
  by (simp add: pinv_def pool_ok_def fresh_pool_def new_PromisePool_def boot_def)

lemma pinv_run_from: "pinv w \<Longrightarrow> pinv (run evs w)"
  unfolding run_def by (induction evs arbitrary: w) (simp_all add: pinv_step)

lemma pinv_reachable: "pinv (run evs (fresh_pool n))"
  by (rule pinv_run_from [OF pinv_fresh])

subsection \<open>Increments and decrements of the running count\<close>

text \<open>
  Line 224 is the only increment and comes with an entry of \<open>started\<close>; line 228 is the
  only decrement and comes with an entry of \<open>finished\<close>.
\<close>

definition balance :: "pool_world \<Rightarrow> int" where
  "balance w = running w - int (length (started w)) + int (length (finished w))"

lemma balance_finally: "balance (finally_block t out w) = balance w"
  by (simp add: balance_def finally_block_def Let_def split: list.split)

lemma balance_start: "balance (start t b w) = balance w"
  by (cases b) (simp_all add: start_def balance_finally, simp_all add: balance_def)

lemma balance_add: "balance (snd (add b w)) = balance w"
  by (simp add: add_def Let_def balance_start) (simp add: balance_def)

lemma balance_step: "balance (step ev w) = balance w"
proof (cases ev)
  case (Add b)
  then show ?thesis by (simp add: balance_add)
next
  case (Defer b)
  then show ?thesis by (simp add: balance_def)
next
  case (Settle t)
  then show ?thesis by (simp add: balance_def settle_def split: phase.split)
next
  case Tick
  show ?thesis
  proof (cases "microtasks w")
    case Nil
    with Tick show ?thesis by simp
  next
    case (Cons j js)
    have "balance (w\<lparr>microtasks := js\<rparr>) = balance w" by (simp add: balance_def)
    with Tick Cons show ?thesis
      by (cases j) (simp_all add: balance_start balance_finally balance_add)
  qed
qed

lemma balance_reachable:
  "running (run evs (fresh_pool n)) =
   int (length (started (run evs (fresh_pool n)))) - int (length (finished (run evs (fresh_pool n))))"
proof -
  have "balance (run evs w) = balance w" for w
    unfolding run_def by (induction evs arbitrary: w) (simp_all add: balance_step)
  from this [of "fresh_pool n"] show ?thesis
    by (simp add: balance_def fresh_pool_def new_PromisePool_def boot_def)
qed

subsection \<open>Which steps dequeue\<close>

lemma finally_queue:
  "pool_queue (finally_block t out w) = tl (pool_queue w) \<and>
   finished (finally_block t out w) = finished w @ [t]"
  by (simp add: finally_block_def Let_def split: list.split)

lemma start_queue:
  "pool_queue (start t b w) = (case b of Throws e \<Rightarrow> tl (pool_queue w) | Returns out \<Rightarrow> pool_queue w) \<and>
   finished (start t b w) = (case b of Throws e \<Rightarrow> finished w @ [t] | Returns out \<Rightarrow> finished w)"
  by (simp add: start_def finally_queue split: behaviour.split)

lemma add_queue:
  "pool_queue (snd (add b w)) =
     (if running w \<ge> maxConcurrent w then pool_queue w @ [(length (phases w), b)]
      else case b of Throws e \<Rightarrow> tl (pool_queue w) | Returns out \<Rightarrow> pool_queue w) \<and>
   finished (snd (add b w)) =
     (if running w \<ge> maxConcurrent w then finished w
      else case b of Throws e \<Rightarrow> finished w @ [length (phases w)] | Returns out \<Rightarrow> finished w)"
  by (simp add: add_def Let_def start_queue split: behaviour.split)

lemma settle_queue:
  "pool_queue (settle t w) = pool_queue w \<and> finished (settle t w) = finished w"
  by (simp add: settle_def split: phase.split)

lemma tl_neq:
  assumes "xs \<noteq> []"
  shows "tl xs \<noteq> xs" and "xs \<noteq> tl xs" and "tl xs \<noteq> xs @ [x]" and "xs @ [x] \<noteq> tl xs"
proof -
  from assms obtain y ys where "xs = y # ys" by (cases xs) auto
  then have l: "length (tl xs) \<noteq> length xs" "length (tl xs) \<noteq> length (xs @ [x])"
    by simp_all
  from l(1) show "tl xs \<noteq> xs" "xs \<noteq> tl xs" by metis+
  from l(2) show "tl xs \<noteq> xs @ [x]" "xs @ [x] \<noteq> tl xs" by metis+
qed

lemma dequeue_iff_finally:
  "(pool_queue w \<noteq> [] \<and> pool_queue (step ev w) = tl (pool_queue w)) =
   (pool_queue w \<noteq> [] \<and> finished (step ev w) \<noteq> finished w)"
proof (cases "pool_queue w = []")
  case True
  then show ?thesis by simp
next
  case False
  note ne = tl_neq [OF False]
  show ?thesis
  proof (cases ev)
    case (Add b)
    with False ne show ?thesis by (cases b) (auto simp: add_queue)
  next
    case (Defer b)
    with False ne show ?thesis by simp
  next
    case (Settle t)
    with False ne show ?thesis by (simp add: settle_queue)
  next
    case Tick
    show ?thesis
    proof (cases "microtasks w")
      case Nil
      with Tick False ne show ?thesis by simp
    next
      case (Cons j js)
      show ?thesis
      proof (cases j)
        case (Resume t b)
        with Tick Cons False ne show ?thesis by (cases b) (auto simp: start_queue)
      next
        case (Finish t out)
        with Tick Cons False ne show ?thesis by (simp add: finally_queue)
      next
        case (CallAdd b)
        with Tick Cons False ne show ?thesis by (cases b) (auto simp: add_queue)
      qed
    qed
  qed
qed


subsection \<open>A full pool keeps later calls queued\<close>

text \<open>
  \<open>parked k b\<close> holds while call \<open>k\<close>, with operation \<open>b\<close>, is at the head of the
  queue, no slot is free and no continuation of a call is pending: the calls \<open>0\<close> to
  \<open>k - 1\<close> are the only ones that have started.
\<close>

lemma run_snoc: "run (evs @ [e]) w = step e (run evs w)"
  by (simp add: run_def)

lemma run_append: "run (evs @ evs') w = run evs' (run evs w)"
  by (simp add: run_def)

lemma fill_pool:
  "length outs \<le> n \<Longrightarrow>
   run (map (Add \<circ> Returns) outs) (fresh_pool (int n)) =
     \<lparr>maxConcurrent = int n, running = int (length outs), pool_queue = [],
       requested = map Returns outs, phases = map Running outs, microtasks = [],
       started = [0..<length outs], finished = []\<rparr>"
proof (induction outs rule: rev_induct)
  case Nil
  show ?case by (simp add: run_def fresh_pool_def new_PromisePool_def boot_def)
next
  case (snoc out outs)
  then show ?case
    by (simp add: run_snoc add_def start_def Let_def list_update_append)
qed

lemma overfill_pool:
  "run (map (Add \<circ> Returns) (outs @ [out])) (fresh_pool (int (length outs))) =
     \<lparr>maxConcurrent = int (length outs), running = int (length outs),
       pool_queue = [(length outs, Returns out)],
       requested = map Returns outs @ [Returns out],
       phases = map Running outs @ [Waiting], microtasks = [],
       started = [0..<length outs], finished = []\<rparr>"
  using fill_pool [of outs "length outs"]
  by (simp add: run_snoc add_def Let_def)

definition parked :: "nat \<Rightarrow> behaviour \<Rightarrow> pool_world \<Rightarrow> bool" where
  "parked k b w \<longleftrightarrow>
     maxConcurrent w \<le> running w \<and> started w = [0..<k] \<and>
     pool_queue w \<noteq> [] \<and> hd (pool_queue w) = (k, b) \<and>
     resumes (microtasks w) = [] \<and> finishes (microtasks w) = [] \<and>
     (\<forall>t. k \<le> t \<longrightarrow> t < length (phases w) \<longrightarrow> phases w ! t = Waiting)"

lemma parked_add: "parked k b w \<Longrightarrow> parked k b (snd (add c w))"
  by (auto simp: parked_def add_def Let_def nth_append)

lemma parked_step:
  assumes "parked k b w" and "\<forall>t<k. ev \<noteq> Settle t"
  shows "parked k b (step ev w)"
proof (cases ev)
  case (Add c)
  with assms show ?thesis by (simp add: parked_add)
next
  case (Defer c)
  with assms show ?thesis by (simp add: parked_def resumes_append finishes_append)
next
  case (Settle t)
  with assms(2) have "\<not> t < k" by auto
  then have "k \<le> t" by simp
  with assms(1) have "settle t w = w"
    by (simp add: settle_def parked_def)
  with assms Settle show ?thesis by simp
next
  case Tick
  show ?thesis
  proof (cases "microtasks w")
    case Nil
    with assms Tick show ?thesis by simp
  next
    case (Cons j js)
    with assms(1) obtain c where j: "j = CallAdd c"
      by (cases j) (simp_all add: parked_def)
    from assms(1) Cons j have "parked k b (w\<lparr>microtasks := js\<rparr>)"
      by (simp add: parked_def)
    then have "parked k b (snd (add c (w\<lparr>microtasks := js\<rparr>)))" by (rule parked_add)
    with Tick Cons j show ?thesis by simp
  qed
qed

lemma parked_run:
  "parked k b w \<Longrightarrow> \<forall>t<k. Settle t \<notin> set evs \<Longrightarrow> parked k b (run evs w)"
proof (induction evs arbitrary: w)
  case Nil
  then show ?case by (simp add: run_def)
next
  case (Cons e evs)
  from Cons.prems have "parked k b (step e w)" by (intro parked_step) auto
  moreover from Cons.prems have "\<forall>t<k. Settle t \<notin> set evs" by auto
  ultimately have "parked k b (run evs (step e w))" by (rule Cons.IH)
  then show ?case by (simp add: run_def)
qed

text \<open>
  The state in which a slot has been released and not yet taken: three calls on a pool of
  one slot, the operation of the first settled and its \<^verbatim>\<open>finally\<close> block run.
\<close>

definition handoff_state :: pool_world where
  "handoff_state =
     run [Add (Returns (Fulfilled 1)), Add (Returns (Fulfilled 2)),
          Add (Returns (Fulfilled 3)), Settle 0, Tick] (fresh_pool 1)"

subsection \<open>Running the pool to quiescence\<close>

text \<open>
  \<open>pdrain\<close> is the environment in which every operation settles: it runs the oldest
  microtask if there is one, settles the operation of the first running call otherwise,
  and stops when neither exists. Each step lowers \<open>load\<close>.
\<close>

fun is_running :: "phase \<Rightarrow> bool" where
  "is_running (Running out) = True"
| "is_running p = False"

fun weight :: "job \<Rightarrow> nat" where
  "weight (Resume t b) = 3"
| "weight (Finish t out) = 1"
| "weight (CallAdd b) = 4"

definition load :: "pool_world \<Rightarrow> nat" where
  "load w = 2 * length (filter is_running (phases w)) +
     sum_list (map weight (microtasks w)) + 3 * length (pool_queue w)"

definition next_running :: "phase list \<Rightarrow> tid option" where
  "next_running ps = find (\<lambda>t. is_running (ps ! t)) [0..<length ps]"

lemma count_update_le:
  assumes "\<not> P v"
  shows "length (filter P (xs[t := v])) \<le> length (filter P xs)"
proof (cases "t < length xs")
  case True
  with filter_update_length [OF True, of P v] assms show ?thesis
    by (simp split: if_splits)
next
  case False
  then show ?thesis by (simp add: list_update_beyond)
qed

lemma count_update_le1:
  "length (filter P (xs[t := v])) \<le> length (filter P xs) + 1"
proof (cases "t < length xs")
  case True
  with filter_update_length [OF True, of P v] show ?thesis by (simp split: if_splits)
next
  case False
  then show ?thesis by (simp add: list_update_beyond)
qed

lemma load_finally: "load (finally_block t out w) \<le> load w"
proof (cases "pool_queue w")
  case Nil
  then show ?thesis
    using count_update_le [of is_running "Done out" "phases w" t]
    by (simp add: finally_block_def load_def)
next
  case (Cons p rest)
  obtain r b where p: "p = (r, b)" by (cases p)
  have "length (filter is_running ((phases w)[r := Woken, t := Done out])) \<le>
      length (filter is_running ((phases w)[r := Woken]))"
    by (rule count_update_le) simp
  also have "\<dots> \<le> length (filter is_running (phases w))"
    by (rule count_update_le) simp
  finally show ?thesis using Cons p
    by (simp add: finally_block_def load_def)
qed

lemma load_start: "load (start t b w) \<le> load w + 2"
proof (cases b)
  case (Throws e)
  have "load (finally_block t (Rejected e)
      (w\<lparr>running := running w + 1, started := started w @ [t]\<rparr>)) \<le>
    load (w\<lparr>running := running w + 1, started := started w @ [t]\<rparr>)"
    by (rule load_finally)
  with Throws show ?thesis by (simp add: start_def load_def)
next
  case (Returns out)
  with count_update_le1 [of is_running "phases w" t "Running out"] show ?thesis
    by (simp add: start_def load_def)
qed

lemma load_add: "load (snd (add b w)) \<le> load w + 3"
proof (cases "maxConcurrent w \<le> running w")
  case True
  then show ?thesis by (simp add: add_def Let_def load_def)
next
  case False
  with load_start [of "length (phases w)" b
      "w\<lparr>requested := requested w @ [b], phases := phases w @ [Waiting]\<rparr>"]
  show ?thesis by (simp add: add_def Let_def load_def)
qed

lemma load_tick: "microtasks w \<noteq> [] \<Longrightarrow> load (step Tick w) < load w"
proof -
  assume "microtasks w \<noteq> []"
  then obtain j js where m: "microtasks w = j # js" by (cases "microtasks w") auto
  have l: "load (w\<lparr>microtasks := js\<rparr>) + weight j = load w"
    using m by (simp add: load_def)
  show ?thesis
  proof (cases j)
    case (Resume t b)
    with m l load_start [of t b "w\<lparr>microtasks := js\<rparr>"] show ?thesis by simp
  next
    case (Finish t out)
    with m l load_finally [of t out "w\<lparr>microtasks := js\<rparr>"] show ?thesis by simp
  next
    case (CallAdd b)
    with m l load_add [of b "w\<lparr>microtasks := js\<rparr>"] show ?thesis by simp
  qed
qed

lemma next_running_Some:
  "next_running ps = Some t \<Longrightarrow> t < length ps \<and> (\<exists>out. ps ! t = Running out)"
proof -
  assume "next_running ps = Some t"
  then have "t < length ps \<and> is_running (ps ! t)"
    by (auto simp: next_running_def find_Some_iff)
  then show ?thesis by (cases "ps ! t") simp_all
qed

lemma next_running_None:
  "next_running ps = None \<Longrightarrow> t < length ps \<Longrightarrow> ps ! t \<noteq> Running out"
  by (auto simp: next_running_def find_None_iff)

lemma load_settle:
  assumes "next_running (phases w) = Some t"
  shows "load (step (Settle t) w) < load w"
proof -
  from next_running_Some [OF assms] obtain out
    where t: "t < length (phases w)" "phases w ! t = Running out" by blast
  from filter_update_length [OF t(1), of is_running "Settled out"] t(2)
  have "length (filter is_running ((phases w)[t := Settled out])) + 1 =
      length (filter is_running (phases w))" by simp
  with t show ?thesis by (simp add: settle_def load_def)
qed

function pdrain :: "pool_world \<Rightarrow> pool_world" where
  "pdrain w =
     (case microtasks w of
        j # js \<Rightarrow> pdrain (step Tick w)
      | [] \<Rightarrow>
          (case next_running (phases w) of
             Some t \<Rightarrow> pdrain (step (Settle t) w)
           | None \<Rightarrow> w))"
  by pat_completeness auto
termination
proof (relation "measure load")
  show "wf (measure load)" by simp
next
  fix w :: pool_world and j js
  assume "microtasks w = j # js"
  then show "(step Tick w, w) \<in> measure load"
    using load_tick [of w] by simp
next
  fix w :: pool_world and t
  assume "next_running (phases w) = Some t"
  then show "(step (Settle t) w, w) \<in> measure load"
    using load_settle [of w t] by simp
qed

declare pdrain.simps [simp del]

lemma pdrain_tick: "microtasks w \<noteq> [] \<Longrightarrow> pdrain w = pdrain (step Tick w)"
  by (subst pdrain.simps) (simp split: list.split)

lemma pdrain_settle:
  "microtasks w = [] \<Longrightarrow> next_running (phases w) = Some t \<Longrightarrow>
   pdrain w = pdrain (step (Settle t) w)"
  by (subst pdrain.simps) simp

lemma pdrain_stop:
  "microtasks w = [] \<Longrightarrow> next_running (phases w) = None \<Longrightarrow> pdrain w = w"
  by (subst pdrain.simps) simp

lemma pdrain_cases [case_names tick settle stop]:
  assumes "\<And>w. microtasks w \<noteq> [] \<Longrightarrow> P (step Tick w) \<Longrightarrow> P w"
    and "\<And>w t. microtasks w = [] \<Longrightarrow> next_running (phases w) = Some t \<Longrightarrow>
           P (step (Settle t) w) \<Longrightarrow> P w"
    and "\<And>w. microtasks w = [] \<Longrightarrow> next_running (phases w) = None \<Longrightarrow> P w"
  shows "P w"
proof (induction w rule: pdrain.induct)
  case (1 w)
  show ?case
  proof (cases "microtasks w")
    case (Cons j js)
    with "1.IH"(2) [OF Cons] assms(1) [of w] show ?thesis by simp
  next
    case Nil
    show ?thesis
    proof (cases "next_running (phases w)")
      case None
      with Nil assms(3) show ?thesis by simp
    next
      case (Some t)
      from "1.IH"(1) [OF Nil Some] assms(2) [OF Nil Some] show ?thesis by simp
    qed
  qed
qed


subsection \<open>A waiting call is owed a slot\<close>

text \<open>
  While a call waits, the running calls and the woken calls together are at least
  \<open>maxConcurrent\<close>: some completion or resumption is still to come that will reach it.
\<close>

definition pool_fed :: "pool_world \<Rightarrow> bool" where
  "pool_fed w \<longleftrightarrow>
     pool_queue w = [] \<or>
     maxConcurrent w \<le> running w + int (length (resumes (microtasks w)))"

lemma fed_finally: "pool_fed w \<Longrightarrow> pool_fed (finally_block t out w)"
  by (cases "pool_queue w")
    (auto simp: pool_fed_def finally_block_def resumes_append)

lemma fed_start:
  assumes "pool_queue w = [] \<or>
     maxConcurrent w \<le> running w + 1 + int (length (resumes (microtasks w)))"
  shows "pool_fed (start t b w)"
proof (cases b)
  case (Returns out)
  with assms show ?thesis by (auto simp: start_def pool_fed_def)
next
  case (Throws e)
  from assms have "pool_fed (w\<lparr>running := running w + 1, started := started w @ [t]\<rparr>)"
    by (auto simp: pool_fed_def)
  from fed_finally [OF this] Throws show ?thesis by (simp add: start_def)
qed

lemma fed_add: "pool_fed w \<Longrightarrow> pool_fed (snd (add b w))"
proof (cases "maxConcurrent w \<le> running w")
  case True
  then show ?thesis by (simp add: add_def Let_def pool_fed_def)
next
  case False
  assume "pool_fed w"
  then have "pool_fed (start (length (phases w)) b
      (w\<lparr>requested := requested w @ [b], phases := phases w @ [Waiting]\<rparr>))"
    by (intro fed_start) (auto simp: pool_fed_def)
  with False show ?thesis by (simp add: add_def Let_def)
qed

lemma fed_step: "pool_fed w \<Longrightarrow> pool_fed (step ev w)"
proof (cases ev)
  case (Add b)
  assume "pool_fed w"
  with Add show ?thesis by (simp add: fed_add)
next
  case (Defer b)
  assume "pool_fed w"
  with Defer show ?thesis by (simp add: pool_fed_def resumes_append)
next
  case (Settle t)
  assume "pool_fed w"
  with Settle show ?thesis
    by (simp add: pool_fed_def settle_def resumes_append split: phase.split)
next
  case Tick
  assume fed: "pool_fed w"
  show ?thesis
  proof (cases "microtasks w")
    case Nil
    with Tick fed show ?thesis by simp
  next
    case (Cons j js)
    show ?thesis
    proof (cases j)
      case (Resume t b)
      from fed Cons Resume have "pool_fed (start t b (w\<lparr>microtasks := js\<rparr>))"
        by (intro fed_start) (auto simp: pool_fed_def)
      with Tick Cons Resume show ?thesis by simp
    next
      case (Finish t out)
      from fed Cons Finish have "pool_fed (w\<lparr>microtasks := js\<rparr>)"
        by (auto simp: pool_fed_def)
      from fed_finally [OF this] Tick Cons Finish show ?thesis by simp
    next
      case (CallAdd b)
      from fed Cons CallAdd have "pool_fed (w\<lparr>microtasks := js\<rparr>)"
        by (auto simp: pool_fed_def)
      from fed_add [OF this] Tick Cons CallAdd show ?thesis by simp
    qed
  qed
qed

subsection \<open>Every call keeps its own operation and outcome\<close>

fun agrees :: "behaviour \<Rightarrow> phase \<Rightarrow> bool" where
  "agrees b Waiting = True"
| "agrees b Woken = True"
| "agrees b (Running out) = (out = result_of b)"
| "agrees b (Settled out) = (out = result_of b)"
| "agrees b (Done out) = (out = result_of b)"

fun job_ok :: "behaviour list \<Rightarrow> job \<Rightarrow> bool" where
  "job_ok rs (Resume t b) = (t < length rs \<and> b = rs ! t)"
| "job_ok rs (Finish t out) = (t < length rs \<and> out = result_of (rs ! t))"
| "job_ok rs (CallAdd b) = True"

definition pfaith :: "pool_world \<Rightarrow> bool" where
  "pfaith w \<longleftrightarrow>
     list_all2 agrees (requested w) (phases w) \<and>
     list_all (\<lambda>(t, b). t < length (requested w) \<and> b = requested w ! t) (pool_queue w) \<and>
     list_all (job_ok (requested w)) (microtasks w)"

lemma agrees_update:
  assumes "list_all2 agrees rs ps" and "t < length ps \<Longrightarrow> agrees (rs ! t) v"
  shows "list_all2 agrees rs (ps[t := v])"
  unfolding list_all2_conv_all_nth
proof (intro conjI allI impI)
  show "length rs = length (ps[t := v])" using list_all2_lengthD [OF assms(1)] by simp
next
  fix i
  assume "i < length rs"
  then show "agrees (rs ! i) (ps[t := v] ! i)"
    using list_all2_nthD [OF assms(1), of i] assms(2) list_all2_lengthD [OF assms(1)]
    by (cases "i = t") (simp_all add: nth_list_update)
qed

lemma job_ok_grow: "job_ok rs j \<Longrightarrow> job_ok (rs @ [b]) j"
  by (cases j) (auto simp: nth_append)

lemma faith_finally:
  assumes "pfaith w" and "t < length (phases w) \<Longrightarrow> out = result_of (requested w ! t)"
  shows "pfaith (finally_block t out w)"
proof -
  from assms(1) have a: "list_all2 agrees (requested w) (phases w)"
    and q: "list_all (\<lambda>(t, b). t < length (requested w) \<and> b = requested w ! t) (pool_queue w)"
    and j: "list_all (job_ok (requested w)) (microtasks w)"
    by (simp_all add: pfaith_def)
  have fin: "list_all2 agrees (requested w) (ps[t := Done out])"
    if "list_all2 agrees (requested w) ps" "length ps = length (phases w)" for ps
    using that assms(2) by (intro agrees_update) simp_all
  show ?thesis
  proof (cases "pool_queue w")
    case Nil
    with fin [OF a] j show ?thesis by (simp add: finally_block_def pfaith_def)
  next
    case (Cons p rest)
    obtain r b where p: "p = (r, b)" by (cases p)
    have "list_all2 agrees (requested w) ((phases w)[r := Woken])"
      by (rule agrees_update [OF a]) simp
    from fin [OF this] have "list_all2 agrees (requested w) ((phases w)[r := Woken, t := Done out])"
      by simp
    with q j Cons p show ?thesis by (simp add: finally_block_def pfaith_def)
  qed
qed

lemma faith_start:
  assumes "pfaith w" and "t < length (phases w) \<Longrightarrow> b = requested w ! t"
  shows "pfaith (start t b w)"
proof (cases b)
  case (Returns out)
  from assms(1) have "list_all2 agrees (requested w) (phases w)" by (simp add: pfaith_def)
  moreover have "agrees (requested w ! t) (Running out)" if "t < length (phases w)"
    using assms(2) [OF that] Returns by (metis agrees.simps(3) result_of.simps(2))
  ultimately have "list_all2 agrees (requested w) ((phases w)[t := Running out])"
    by (intro agrees_update) simp_all
  with assms(1) Returns show ?thesis by (simp add: start_def pfaith_def)
next
  case (Throws e)
  from assms(1) have "pfaith (w\<lparr>running := running w + 1, started := started w @ [t]\<rparr>)"
    by (simp add: pfaith_def)
  moreover have "Rejected e = result_of (requested w ! t)" if "t < length (phases w)"
    using assms(2) [OF that] Throws by (metis result_of.simps(1))
  ultimately have "pfaith (finally_block t (Rejected e)
      (w\<lparr>running := running w + 1, started := started w @ [t]\<rparr>))"
    by (intro faith_finally) simp_all
  with Throws show ?thesis by (simp add: start_def)
qed

lemma faith_grow:
  assumes "pfaith w"
  shows "pfaith (w\<lparr>requested := requested w @ [b], phases := phases w @ [Waiting]\<rparr>)"
proof -
  from assms have a: "list_all2 agrees (requested w) (phases w)"
    and q: "list_all (\<lambda>(t, b). t < length (requested w) \<and> b = requested w ! t) (pool_queue w)"
    and j: "list_all (job_ok (requested w)) (microtasks w)"
    by (simp_all add: pfaith_def)
  from a have "list_all2 agrees (requested w @ [b]) (phases w @ [Waiting])"
    by (intro list_all2_appendI) simp_all
  moreover from q have "list_all (\<lambda>(t, c). t < length (requested w @ [b]) \<and>
      c = (requested w @ [b]) ! t) (pool_queue w)"
    by (auto simp: list_all_iff nth_append)
  moreover from j have "list_all (job_ok (requested w @ [b])) (microtasks w)"
    by (auto simp: list_all_iff job_ok_grow)
  ultimately show ?thesis by (simp add: pfaith_def)
qed

lemma faith_add: "pfaith w \<Longrightarrow> pfaith (snd (add b w))"
proof -
  assume f: "pfaith w"
  let ?w0 = "w\<lparr>requested := requested w @ [b], phases := phases w @ [Waiting]\<rparr>"
  from f have len: "length (requested w) = length (phases w)"
    by (auto simp: pfaith_def dest: list_all2_lengthD)
  note g = faith_grow [OF f, of b]
  have nth: "(requested w @ [b]) ! length (phases w) = b"
    using len by (metis nth_append_length)
  show ?thesis
  proof (cases "maxConcurrent w \<le> running w")
    case True
    from g len nth
    have "pfaith (?w0\<lparr>pool_queue := pool_queue ?w0 @ [(length (phases w), b)]\<rparr>)"
      by (simp add: pfaith_def)
    with True show ?thesis by (simp add: add_def Let_def)
  next
    case False
    from nth have "b = requested ?w0 ! length (phases w)" by simp
    with g have "pfaith (start (length (phases w)) b ?w0)"
      by (intro faith_start) simp_all
    with False show ?thesis by (simp add: add_def Let_def)
  qed
qed

lemma faith_settle: "pfaith w \<Longrightarrow> pfaith (settle t w)"
proof (cases "t < length (phases w)")
  case False
  assume "pfaith w"
  with False show ?thesis by (simp add: settle_def)
next
  case True
  assume f: "pfaith w"
  then have a: "list_all2 agrees (requested w) (phases w)" by (simp add: pfaith_def)
  show ?thesis
  proof (cases "phases w ! t")
    case (Running out)
    from list_all2_nthD2 [OF a True] Running
    have out: "t < length (requested w)" "out = result_of (requested w ! t)"
      using list_all2_lengthD [OF a] True by simp_all
    have "list_all2 agrees (requested w) ((phases w)[t := Settled out])"
      using out by (intro agrees_update [OF a]) simp
    with f out True Running show ?thesis by (simp add: settle_def pfaith_def)
  qed (use f True in \<open>simp_all add: settle_def\<close>)
qed

lemma faith_step: "pfaith w \<Longrightarrow> pfaith (step ev w)"
proof (cases ev)
  case (Add b)
  assume "pfaith w"
  with Add show ?thesis by (simp add: faith_add)
next
  case (Defer b)
  assume "pfaith w"
  with Defer show ?thesis by (simp add: pfaith_def)
next
  case (Settle t)
  assume "pfaith w"
  with Settle show ?thesis by (simp add: faith_settle)
next
  case Tick
  assume f: "pfaith w"
  show ?thesis
  proof (cases "microtasks w")
    case Nil
    with Tick f show ?thesis by simp
  next
    case (Cons j js)
    from f Cons have j: "job_ok (requested w) j" and rest: "pfaith (w\<lparr>microtasks := js\<rparr>)"
      by (simp_all add: pfaith_def)
    show ?thesis
    proof (cases j)
      case (Resume t b)
      with j rest have "pfaith (start t b (w\<lparr>microtasks := js\<rparr>))"
        by (intro faith_start) simp_all
      with Tick Cons Resume show ?thesis by simp
    next
      case (Finish t out)
      with j rest have "pfaith (finally_block t out (w\<lparr>microtasks := js\<rparr>))"
        by (intro faith_finally) simp_all
      with Tick Cons Finish show ?thesis by simp
    next
      case (CallAdd b)
      from faith_add [OF rest] Tick Cons CallAdd show ?thesis by simp
    qed
  qed
qed


subsection \<open>The state after quiescence\<close>

definition sound :: "pool_world \<Rightarrow> bool" where
  "sound w \<longleftrightarrow> pinv w \<and> pool_fed w \<and> pfaith w"

lemma sound_step: "sound w \<Longrightarrow> sound (step ev w)"
  by (simp add: sound_def pinv_step fed_step faith_step)

lemma sound_fresh: "sound (fresh_pool n)"
  by (simp add: sound_def pinv_fresh)
    (simp add: pool_fed_def pfaith_def fresh_pool_def new_PromisePool_def boot_def)

lemma sound_reachable: "sound (run evs (fresh_pool n))"
proof -
  have "sound w \<Longrightarrow> sound (run evs w)" for w
    unfolding run_def by (induction evs arbitrary: w) (simp_all add: sound_step)
  from this [OF sound_fresh] show ?thesis .
qed

lemma finally_fixed:
  "maxConcurrent (finally_block t out w) = maxConcurrent w \<and>
   requested (finally_block t out w) = requested w"
  by (simp add: finally_block_def Let_def split: list.split)

lemma start_fixed:
  "maxConcurrent (start t b w) = maxConcurrent w \<and> requested (start t b w) = requested w"
  by (cases b) (simp_all add: start_def finally_fixed)

lemma add_fixed:
  "maxConcurrent (snd (add b w)) = maxConcurrent w \<and>
   requested (snd (add b w)) = requested w @ [b]"
  by (simp add: add_def Let_def start_fixed)

lemma step_fixed:
  "maxConcurrent (step ev w) = maxConcurrent w \<and> prefix (requested w) (requested (step ev w))"
proof (cases ev)
  case (Add b)
  then show ?thesis by (simp add: add_fixed)
next
  case (Defer b)
  then show ?thesis by simp
next
  case (Settle t)
  then show ?thesis by (simp add: settle_def split: phase.split)
next
  case Tick
  show ?thesis
  proof (cases "microtasks w")
    case Nil
    with Tick show ?thesis by simp
  next
    case (Cons j js)
    with Tick show ?thesis
      by (cases j) (simp_all add: start_fixed finally_fixed add_fixed)
  qed
qed

lemma pdrain_quiet:
  "microtasks (pdrain w) = [] \<and> next_running (phases (pdrain w)) = None"
proof (induction w rule: pdrain_cases)
  case (tick w)
  then show ?case by (simp add: pdrain_tick)
next
  case (settle w t)
  then show ?case by (simp add: pdrain_settle)
next
  case (stop w)
  then show ?case by (simp add: pdrain_stop)
qed

lemma pdrain_keeps:
  "sound w \<Longrightarrow>
   sound (pdrain w) \<and> maxConcurrent (pdrain w) = maxConcurrent w \<and>
   prefix (requested w) (requested (pdrain w))"
proof (induction w rule: pdrain_cases)
  case (tick w)
  from tick.prems have "sound (step Tick w)" by (rule sound_step)
  with tick(1,2) step_fixed [of Tick w] show ?case
    by (auto simp: pdrain_tick intro: prefix_order.trans)
next
  case (settle w t)
  from settle.prems have "sound (step (Settle t) w)" by (rule sound_step)
  with settle(1,2,3) step_fixed [of "Settle t" w] show ?case
    by (auto simp: pdrain_settle intro: prefix_order.trans)
next
  case (stop w)
  then show ?case by (simp add: pdrain_stop)
qed

lemma pool_settled:
  assumes "sound w" and "1 \<le> maxConcurrent w"
    and "microtasks w = []" and "next_running (phases w) = None"
  shows "phases w = map (Done \<circ> result_of) (requested w)"
proof -
  from assms(1) have ok: "pool_ok (pool_queue w) (microtasks w) (phases w) (running w)"
    and fed: "pool_fed w" and a: "list_all2 agrees (requested w) (phases w)"
    by (simp_all add: sound_def pinv_def pfaith_def)
  note inv = pool_okD [OF ok]
  have idle: "\<not> active (phases w ! u)" if "u < length (phases w)" for u
  proof (cases "phases w ! u")
    case (Running out)
    with next_running_None [OF assms(4) that, of out] show ?thesis by simp
  next
    case (Settled out)
    with inv(6) [of u out] that assms(3) show ?thesis by simp
  qed simp_all
  have "filter active (phases w) = []"
    unfolding filter_empty_conv using idle by (auto simp: in_set_conv_nth)
  with inv(7) have r0: "running w = 0" by simp
  have empty: "pool_queue w = []"
  proof (rule ccontr)
    assume "pool_queue w \<noteq> []"
    with fed assms(3) r0 have "maxConcurrent w \<le> 0" by (simp add: pool_fed_def)
    with assms(2) show False by simp
  qed
  have "phases w ! t = (Done \<circ> result_of) (requested w ! t)" if t: "t < length (phases w)" for t
  proof (cases "phases w ! t")
    case Waiting
    with inv(4) [of t] t empty show ?thesis by simp
  next
    case Woken
    with inv(5) [of t] t assms(3) show ?thesis by simp
  next
    case (Running out)
    with idle [OF t] show ?thesis by simp
  next
    case (Settled out)
    with idle [OF t] show ?thesis by simp
  next
    case (Done out)
    with list_all2_nthD2 [OF a t] show ?thesis by simp
  qed
  then show ?thesis
    using list_all2_lengthD [OF a] by (intro nth_equalityI) simp_all
qed

lemma pool_drained:
  assumes "1 \<le> n"
  shows "phases (pdrain (run evs (fresh_pool n))) =
      map (Done \<circ> result_of) (requested (pdrain (run evs (fresh_pool n))))"
    and "prefix (requested (run evs (fresh_pool n))) (requested (pdrain (run evs (fresh_pool n))))"
proof -
  let ?w = "run evs (fresh_pool n)"
  have "maxConcurrent w = n \<Longrightarrow> maxConcurrent (run evs w) = n" for w
    unfolding run_def by (induction evs arbitrary: w) (simp_all add: step_fixed)
  then have m: "maxConcurrent ?w = n"
    by (simp add: fresh_pool_def new_PromisePool_def boot_def)
  note k = pdrain_keeps [OF sound_reachable, of evs n]
  from k show "prefix (requested ?w) (requested (pdrain ?w))" by simp
  from k m assms pdrain_quiet [of ?w]
  show "phases (pdrain ?w) = map (Done \<circ> result_of) (requested (pdrain ?w))"
    by (intro pool_settled) simp_all
qed

subsection \<open>Every call starts once and finishes once\<close>

text \<open>
  The calls in \<open>started\<close> are exactly those whose operation has been invoked, and the
  calls in \<open>finished\<close> exactly those that have returned, each once.
\<close>

fun is_done :: "phase \<Rightarrow> bool" where
  "is_done (Done out) = True"
| "is_done p = False"

fun has_started :: "phase \<Rightarrow> bool" where
  "has_started Waiting = False"
| "has_started Woken = False"
| "has_started p = True"

definition logged :: "(phase \<Rightarrow> bool) \<Rightarrow> tid list \<Rightarrow> phase list \<Rightarrow> bool" where
  "logged P ts ps \<longleftrightarrow> distinct ts \<and> (\<forall>t. t \<in> set ts \<longleftrightarrow> t < length ps \<and> P (ps ! t))"

definition plogs :: "pool_world \<Rightarrow> bool" where
  "plogs w \<longleftrightarrow>
     logged is_done (finished w) (phases w) \<and> logged has_started (started w) (phases w)"

lemma logged_keep:
  assumes "logged P ts ps" and "t < length ps \<Longrightarrow> P v = P (ps ! t)"
  shows "logged P ts (ps[t := v])"
  unfolding logged_def
proof (intro conjI allI)
  show "distinct ts" using assms(1) by (simp add: logged_def)
next
  fix u
  from assms(1) have "u \<in> set ts \<longleftrightarrow> u < length ps \<and> P (ps ! u)"
    by (simp add: logged_def)
  with assms(2) show "u \<in> set ts \<longleftrightarrow> u < length (ps[t := v]) \<and> P (ps[t := v] ! u)"
    by (cases "u = t") (auto simp: nth_list_update)
qed

lemma logged_add:
  assumes "logged P ts ps" and "t < length ps" and "\<not> P (ps ! t)" and "P v"
  shows "logged P (ts @ [t]) (ps[t := v])"
  unfolding logged_def
proof (intro conjI allI)
  from assms(1) have iff: "u \<in> set ts \<longleftrightarrow> u < length ps \<and> P (ps ! u)" for u
    by (simp add: logged_def)
  from iff [of t] assms(3) have "t \<notin> set ts" by simp
  with assms(1) show "distinct (ts @ [t])" by (simp add: logged_def)
  fix u
  from iff [of u] assms(2,4)
  show "u \<in> set (ts @ [t]) \<longleftrightarrow> u < length (ps[t := v]) \<and> P (ps[t := v] ! u)"
    by (cases "u = t") (auto simp: nth_list_update)
qed

lemma logged_grow:
  assumes "logged P ts ps" and "\<not> P v"
  shows "logged P ts (ps @ [v])"
  unfolding logged_def
proof (intro conjI allI)
  show "distinct ts" using assms(1) by (simp add: logged_def)
next
  fix u
  from assms(1) have "u \<in> set ts \<longleftrightarrow> u < length ps \<and> P (ps ! u)"
    by (simp add: logged_def)
  with assms(2) show "u \<in> set ts \<longleftrightarrow> u < length (ps @ [v]) \<and> P ((ps @ [v]) ! u)"
    by (cases "u < length ps") (auto simp: nth_append less_Suc_eq)
qed

definition head_waits :: "pool_world \<Rightarrow> bool" where
  "head_waits w =
     (case pool_queue w of
        [] \<Rightarrow> True
      | (r, b) # rest \<Rightarrow> r < length (phases w) \<and> phases w ! r = Waiting)"

lemma head_waits_cong:
  "pool_queue v = pool_queue w \<Longrightarrow> phases v = phases w \<Longrightarrow> head_waits v = head_waits w"
  by (simp add: head_waits_def split: list.split prod.split)

lemma pinv_head_waits: "pinv w \<Longrightarrow> head_waits w"
proof (cases "pool_queue w")
  case Nil
  then show ?thesis by (simp add: head_waits_def)
next
  case (Cons p rest)
  assume "pinv w"
  then have ok: "pool_ok (pool_queue w) (microtasks w) (phases w) (running w)"
    by (simp add: pinv_def)
  obtain r b where "p = (r, b)" by (cases p)
  with Cons pool_okD(4) [OF ok, of r] show ?thesis by (force simp: head_waits_def)
qed

lemma logs_finally:
  assumes "plogs w" and "head_waits w" and "t < length (phases w)"
    and "has_started (phases w ! t)" and "\<not> is_done (phases w ! t)"
  shows "plogs (finally_block t out w)"
proof -
  from assms(1) have d: "logged is_done (finished w) (phases w)"
    and s: "logged has_started (started w) (phases w)" by (simp_all add: plogs_def)
  have fin: "logged is_done (finished w @ [t]) (ps[t := Done out]) \<and>
      logged has_started (started w) (ps[t := Done out])"
    if "logged is_done (finished w) ps" "logged has_started (started w) ps"
      "length ps = length (phases w)" "has_started (ps ! t)" "\<not> is_done (ps ! t)" for ps
  proof
    show "logged is_done (finished w @ [t]) (ps[t := Done out])"
      using that assms(3) by (intro logged_add) simp_all
    show "logged has_started (started w) (ps[t := Done out])"
      using that by (intro logged_keep) simp_all
  qed
  show ?thesis
  proof (cases "pool_queue w")
    case Nil
    with fin [OF d s] assms(4,5) show ?thesis by (simp add: finally_block_def plogs_def)
  next
    case (Cons p rest)
    obtain r b where p: "p = (r, b)" by (cases p)
    with Cons assms(2) have r: "r < length (phases w)" "phases w ! r = Waiting"
      by (simp_all add: head_waits_def)
    with assms(4) have ne: "r \<noteq> t" by auto
    have "logged is_done (finished w) ((phases w)[r := Woken])"
      "logged has_started (started w) ((phases w)[r := Woken])"
      using r by (auto intro!: logged_keep [OF d] logged_keep [OF s])
    from fin [OF this] ne assms(4,5) Cons p show ?thesis
      by (simp add: finally_block_def plogs_def)
  qed
qed

lemma logs_start_Returns:
  assumes "plogs w" and "t < length (phases w)" and "\<not> has_started (phases w ! t)"
  shows "plogs (start t (Returns out) w)"
proof -
  from assms(1) have d: "logged is_done (finished w) (phases w)"
    and s: "logged has_started (started w) (phases w)" by (simp_all add: plogs_def)
  from assms(3) have nd: "\<not> is_done (phases w ! t)" by (cases "phases w ! t") simp_all
  have "logged is_done (finished w) ((phases w)[t := Running out])"
    using nd by (intro logged_keep [OF d]) simp
  moreover have "logged has_started (started w @ [t]) ((phases w)[t := Running out])"
    using assms(2,3) by (intro logged_add [OF s]) simp_all
  ultimately show ?thesis by (simp add: start_def plogs_def)
qed

lemma finally_after_phase:
  assumes "head_waits w" and "phases w ! t \<noteq> Waiting"
  shows "finally_block t out (w\<lparr>phases := (phases w)[t := v]\<rparr>) = finally_block t out w"
proof (cases "pool_queue w")
  case Nil
  then show ?thesis by (simp add: finally_block_def)
next
  case (Cons p rest)
  obtain r b where p: "p = (r, b)" by (cases p)
  with Cons assms have "r \<noteq> t" by (auto simp: head_waits_def)
  with Cons p show ?thesis
    by (simp add: finally_block_def list_update_swap [of r t])
qed

lemma start_Throws:
  assumes "head_waits w" and "phases w ! t \<noteq> Waiting \<or> t \<notin> fst ` set (pool_queue w)"
  shows "start t (Throws e) w = finally_block t (Rejected e) (start t (Returns (Rejected e)) w)"
proof (cases "pool_queue w")
  case Nil
  then show ?thesis by (simp add: start_def finally_block_def)
next
  case (Cons p rest)
  obtain r b where p: "p = (r, b)" by (cases p)
  with Cons assms have "r \<noteq> t" by (auto simp: head_waits_def)
  with Cons p show ?thesis
    by (simp add: start_def finally_block_def list_update_swap [of r t])
qed

lemma logs_start:
  assumes "plogs w" and "head_waits w" and "t < length (phases w)"
    and "\<not> has_started (phases w ! t)"
    and "phases w ! t \<noteq> Waiting \<or> t \<notin> fst ` set (pool_queue w)"
  shows "plogs (start t b w)"
proof (cases b)
  case (Returns out)
  with logs_start_Returns [OF assms(1,3,4)] show ?thesis by simp
next
  case (Throws e)
  let ?w' = "start t (Returns (Rejected e)) w"
  have w': "?w' = w\<lparr>running := running w + 1, started := started w @ [t],
      phases := (phases w)[t := Running (Rejected e)]\<rparr>"
    by (simp add: start_def)
  have hw: "head_waits ?w'"
  proof (cases "pool_queue w")
    case Nil
    then show ?thesis by (simp add: w' head_waits_def)
  next
    case (Cons p rest)
    obtain r c where p: "p = (r, c)" by (cases p)
    with Cons assms(2,5) have "r \<noteq> t" "r < length (phases w)" "phases w ! r = Waiting"
      by (auto simp: head_waits_def)
    with Cons p show ?thesis by (simp add: w' head_waits_def)
  qed
  have "plogs (finally_block t (Rejected e) ?w')"
    using logs_start_Returns [OF assms(1,3,4), of "Rejected e"] hw assms(3)
    by (intro logs_finally) (simp_all add: w')
  with start_Throws [OF assms(2,5)] Throws show ?thesis by simp
qed

lemma logs_add:
  assumes "plogs w" and "pinv w"
  shows "plogs (snd (add b w))"
proof -
  let ?w0 = "w\<lparr>requested := requested w @ [b], phases := phases w @ [Waiting]\<rparr>"
  from assms(1) have g: "plogs ?w0"
    by (simp add: plogs_def logged_grow)
  show ?thesis
  proof (cases "maxConcurrent w \<le> running w")
    case True
    with g show ?thesis by (simp add: add_def Let_def plogs_def)
  next
    case False
    from assms(2) have ok: "pool_ok (pool_queue w) (microtasks w) (phases w) (running w)"
      by (simp add: pinv_def)
    from pool_okD(4) [OF ok, of "length (phases w)"]
    have fresh: "length (phases w) \<notin> fst ` set (pool_queue w)" by simp
    have hw: "head_waits ?w0"
    proof (cases "pool_queue w")
      case Nil
      then show ?thesis by (simp add: head_waits_def)
    next
      case (Cons p rest)
      obtain r c where p: "p = (r, c)" by (cases p)
      with Cons pinv_head_waits [OF assms(2)] show ?thesis
        by (simp add: head_waits_def nth_append)
    qed
    have "plogs (start (length (phases w)) b ?w0)"
      using g hw fresh by (intro logs_start) simp_all
    with False show ?thesis by (simp add: add_def Let_def)
  qed
qed

lemma logs_settle: "plogs w \<Longrightarrow> plogs (settle t w)"
proof (cases "t < length (phases w)")
  case False
  assume "plogs w"
  with False show ?thesis by (simp add: settle_def)
next
  case True
  assume l: "plogs w"
  show ?thesis
  proof (cases "phases w ! t")
    case (Running out)
    from l have "logged is_done (finished w) ((phases w)[t := Settled out])"
      "logged has_started (started w) ((phases w)[t := Settled out])"
      using Running by (auto simp: plogs_def intro!: logged_keep)
    with True Running show ?thesis by (simp add: settle_def plogs_def)
  qed (use l True in \<open>simp_all add: settle_def\<close>)
qed

lemma logs_step:
  assumes "plogs w" and "pinv w"
  shows "plogs (step ev w)"
proof (cases ev)
  case (Add b)
  with logs_add [OF assms] show ?thesis by simp
next
  case (Defer b)
  with assms(1) show ?thesis by (simp add: plogs_def)
next
  case (Settle t)
  with logs_settle [OF assms(1)] show ?thesis by simp
next
  case Tick
  show ?thesis
  proof (cases "microtasks w")
    case Nil
    with Tick assms(1) show ?thesis by simp
  next
    case (Cons j js)
    from assms(2) have ok: "pool_ok (pool_queue w) (microtasks w) (phases w) (running w)"
      by (simp add: pinv_def)
    let ?w' = "w\<lparr>microtasks := js\<rparr>"
    from assms(1) have l: "plogs ?w'" by (simp add: plogs_def)
    from pinv_head_waits [OF assms(2)] have hw: "head_waits ?w'"
      by (simp add: head_waits_cong [of ?w' w])
    show ?thesis
    proof (cases j)
      case (Resume t b)
      with pool_okD(5) [OF ok, of t] Cons
      have t: "t < length (phases w)" "phases w ! t = Woken" by simp_all
      then have "plogs (start t b ?w')"
        using l hw by (intro logs_start) simp_all
      with Tick Cons Resume show ?thesis by simp
    next
      case (Finish t out)
      with pool_okD(6) [OF ok, of t out] Cons
      have t: "t < length (phases w)" "phases w ! t = Settled out" by simp_all
      then have "plogs (finally_block t out ?w')"
        using l hw by (intro logs_finally) simp_all
      with Tick Cons Finish show ?thesis by simp
    next
      case (CallAdd b)
      from ok Cons CallAdd have "pinv ?w'"
        by (simp add: pinv_def ok_calladd [of _ b])
      from logs_add [OF l this] Tick Cons CallAdd show ?thesis by simp
    qed
  qed
qed

lemma logs_fresh: "plogs (fresh_pool n)"
  by (simp add: plogs_def logged_def fresh_pool_def new_PromisePool_def boot_def)

lemma logs_reachable: "plogs (run evs (fresh_pool n))"
proof -
  have "plogs w \<Longrightarrow> pinv w \<Longrightarrow> plogs (run evs w)" for w
    unfolding run_def
    by (induction evs arbitrary: w) (simp_all add: logs_step pinv_step)
  from this [OF logs_fresh pinv_fresh] show ?thesis .
qed

lemma logs_pdrain: "plogs w \<Longrightarrow> pinv w \<Longrightarrow> plogs (pdrain w)"
proof (induction w rule: pdrain_cases)
  case (tick w)
  from tick.prems have "plogs (step Tick w)" "pinv (step Tick w)"
    by (simp_all only: logs_step pinv_step)
  with tick(2) have "plogs (pdrain (step Tick w))" by blast
  with pdrain_tick [OF tick(1)] show ?case by simp
next
  case (settle w t)
  from settle.prems have "plogs (step (Settle t) w)" "pinv (step (Settle t) w)"
    by (simp_all only: logs_step pinv_step)
  with settle(3) have "plogs (pdrain (step (Settle t) w))" by blast
  with pdrain_settle [OF settle(1,2)] show ?case by simp
next
  case (stop w)
  then show ?case by (simp add: pdrain_stop)
qed

lemma sort_is_upt:
  assumes "distinct ts" and "set ts = {0..<n}"
  shows "sort ts = [0..<n]"
  using assms by (intro sorted_distinct_set_unique) simp_all

lemma all_finished:
  assumes "1 \<le> n"
  shows "sort (finished (pdrain (run evs (fresh_pool n)))) =
      [0..<length (requested (pdrain (run evs (fresh_pool n))))]"
    and "sort (started (pdrain (run evs (fresh_pool n)))) =
      [0..<length (requested (pdrain (run evs (fresh_pool n))))]"
    and "running (pdrain (run evs (fresh_pool n))) = 0"
proof -
  let ?w = "run evs (fresh_pool n)"
  let ?d = "pdrain ?w"
  from sound_reachable [of evs n] have pinv: "pinv ?w" by (simp add: sound_def)
  from logs_pdrain [OF logs_reachable pinv]
  have d: "logged is_done (finished ?d) (phases ?d)"
    and s: "logged has_started (started ?d) (phases ?d)" by (simp_all add: plogs_def)
  note ph = pool_drained(1) [OF assms, of evs]
  have all: "is_done (phases ?d ! t) \<and> has_started (phases ?d ! t)"
    if "t < length (requested ?d)" for t
    using that by (simp add: ph)
  have len: "length (phases ?d) = length (requested ?d)" by (simp add: ph)
  from d all len have "set (finished ?d) = {0..<length (requested ?d)}"
    by (auto simp: logged_def)
  with d show "sort (finished ?d) = [0..<length (requested ?d)]"
    by (intro sort_is_upt) (simp_all add: logged_def)
  from s all len have "set (started ?d) = {0..<length (requested ?d)}"
    by (auto simp: logged_def)
  with s show "sort (started ?d) = [0..<length (requested ?d)]"
    by (intro sort_is_upt) (simp_all add: logged_def)
  from pdrain_keeps [OF sound_reachable, of evs n]
  have "pool_ok (pool_queue ?d) (microtasks ?d) (phases ?d) (running ?d)"
    by (simp add: sound_def pinv_def)
  from pool_okD(7) [OF this] have "running ?d = int (length (filter active (phases ?d)))" .
  also have "filter active (phases ?d) = []"
    by (simp add: ph filter_empty_conv)
  finally show "running ?d = 0" by simp
qed


subsection \<open>The steps that complete a call\<close>

text \<open>
  A pool of one slot after three calls: the first operation is pending, the second
  call (whose operation will throw) and the third wait.
\<close>

definition busy_pool :: pool_world where
  "busy_pool =
     run [Add (Returns (Fulfilled 1)), Add (Throws 5), Add (Returns (Rejected 2))]
       (fresh_pool 1)"

lemma tick_Finish:
  assumes "microtasks v = Finish u res # js"
  shows "running (step Tick v) = running v - 1"
    and "finished (step Tick v) = finished v @ [u]"
    and "started (step Tick v) = started v"
    and "pool_queue (step Tick v) = tl (pool_queue v)"
    and "microtasks (step Tick v) =
      js @ (case pool_queue v of [] \<Rightarrow> [] | (r, b) # rest \<Rightarrow> [Resume r b])"
  using assms by (simp_all add: finally_block_def Let_def split: list.split)

lemma tick_Resume_Throws:
  assumes "microtasks x = Resume s (Throws e) # ks"
  shows "running (step Tick x) = running x"
    and "started (step Tick x) = started x @ [s]"
    and "finished (step Tick x) = finished x @ [s]"
    and "pool_queue (step Tick x) = tl (pool_queue x)"
    and "microtasks (step Tick x) =
      ks @ (case pool_queue x of [] \<Rightarrow> [] | (r, b) # rest \<Rightarrow> [Resume r b])"
  using assms by (simp_all add: start_def finally_block_def Let_def split: list.split)

lemma add_Throws:
  assumes "running y < maxConcurrent y"
  shows "running (step (Add (Throws e)) y) = running y"
    and "started (step (Add (Throws e)) y) = started y @ [length (phases y)]"
    and "finished (step (Add (Throws e)) y) = finished y @ [length (phases y)]"
    and "pool_queue (step (Add (Throws e)) y) = tl (pool_queue y)"
    and "microtasks (step (Add (Throws e)) y) =
      microtasks y @ (case pool_queue y of [] \<Rightarrow> [] | (r, b) # rest \<Rightarrow> [Resume r b])"
  using assms
  by (simp_all add: add_def start_def finally_block_def Let_def split: list.split)

section \<open>The claims\<close>

text \<open>
  C1. The running count can exceed \<open>maxConcurrent\<close>. The program
  \<^verbatim>\<open>
  const pool = new PromisePool(1);
  let r1; const p1 = new Promise(r => r1 = r);
  pool.add(() => p1);                    // Add: call 0 takes the slot
  pool.add(f2);                          // Add: call 1 waits at line 221
  r1(1);                                 // Settle 0
  queueMicrotask(() => pool.add(f3));    // Defer
  \<close>
  leaves three microtasks to run in this order. The continuation of call 0 runs
  \<^verbatim>\<open>finally\<close>: \<open>running\<close> drops to 0 and the \<^verbatim>\<open>resolve\<close> of call 1 is called,
  which queues the continuation of call 1 behind the deferred call. The deferred call of
  \<^verbatim>\<open>add\<close> finds \<open>running = 0\<close> and starts \<^verbatim>\<open>f3\<close>. The continuation of call 1 does
  not test again: it increments \<open>running\<close> to 2 and starts \<^verbatim>\<open>f2\<close>.
\<close>

theorem C1_pool_exceeds_limit:
  "running (run [Add (Returns (Fulfilled 1)), Add (Returns (Fulfilled 2)), Settle 0,
      Defer (Returns (Fulfilled 3)), Tick, Tick, Tick] (fresh_pool 1)) = 2 \<and>
   maxConcurrent (run [Add (Returns (Fulfilled 1)), Add (Returns (Fulfilled 2)), Settle 0,
      Defer (Returns (Fulfilled 3)), Tick, Tick, Tick] (fresh_pool 1)) = 1 \<and>
   phases (run [Add (Returns (Fulfilled 1)), Add (Returns (Fulfilled 2)), Settle 0,
      Defer (Returns (Fulfilled 3)), Tick, Tick, Tick] (fresh_pool 1)) =
     [Done (Fulfilled 1), Running (Fulfilled 2), Running (Fulfilled 3)]"
  by (simp add: run_def fresh_pool_def new_PromisePool_def boot_def add_def start_def
      finally_block_def settle_def)

text \<open>
  C2. The constructor does not validate its argument: with the argument 0, which is
  below 1, it returns a pool instead of throwing.
\<close>

theorem C2_counterexample: "(0::int) < 1 \<and> \<not> isl (new_PromisePool 0)"
  by (simp add: new_PromisePool_def)

text \<open>
  C2, as amended. For every argument, also one below 1, the constructor returns a pool
  that holds the argument as \<open>maxConcurrent\<close>, with no running task and an empty queue.
\<close>

theorem C2_constructor_never_fails:
  "new_PromisePool n = Inr \<lparr>maxConcurrent = n, running = 0, pool_queue = []\<rparr>"
  by (simp add: new_PromisePool_def)

text \<open>
  C3. Tasks start in the order of their calls of \<^verbatim>\<open>enqueue\<close>. After any events
  \<open>evs\<close> the next call of \<^verbatim>\<open>enqueue\<close> returns the handle numbered by the calls of
  \<^verbatim>\<open>enqueue\<close> among \<open>evs\<close>, so task \<open>k\<close> is the task of the call number \<open>k\<close>. The log
  of invoked operations is always an initial segment of \<open>0, 1, 2, ...\<close> up to the number
  of calls, it only grows as more events happen, and once every operation has settled it
  is the whole list: the operations of three tasks enqueued in the order 0, 1, 2 are
  invoked in the order 0, 1, 2.
\<close>

theorem C3_fifo_start_order:
  "fst (enqueue b (qrun evs fresh_queue)) = length (enqueued evs) \<and>
   prefix (invoked (qrun evs fresh_queue)) [0..<length (enqueued evs)] \<and>
   prefix (invoked (qrun evs fresh_queue)) (invoked (qrun (evs @ evs') fresh_queue)) \<and>
   invoked (qdrain (qrun evs fresh_queue)) = [0..<length (enqueued evs)]"
proof -
  let ?w = "qrun evs fresh_queue"
  note sub = submitted_reachable [of evs]
  have "invoked ?w @ map fst (queue ?w) = [0..<length (enqueued evs)]"
    using qinv_invoked_queue [OF qinv_reachable, of evs] sub by simp
  then have "prefix (invoked ?w) [0..<length (enqueued evs)]" by (metis prefixI)
  moreover have "fst (enqueue b ?w) = length (enqueued evs)"
    using sub by (simp add: enqueue_def Let_def)
  moreover have "prefix (invoked ?w) (invoked (qrun (evs @ evs') fresh_queue))"
    unfolding qrun_append by (rule qrun_grows)
  moreover have "invoked (qdrain ?w) = [0..<length (enqueued evs)]"
    using qdrain_done(2) [OF qinv_reachable, of evs] sub by simp
  ultimately show ?thesis by simp
qed

theorem C3_witness:
  "invoked (qrun [Enqueue (Returns (Fulfilled 1)), Enqueue (Returns (Rejected 2)),
       Enqueue (Returns (Fulfilled 3))] fresh_queue) = [0] \<and>
   invoked (qrun [Enqueue (Returns (Fulfilled 1)), Enqueue (Returns (Rejected 2)),
       Enqueue (Returns (Fulfilled 3)), QSettle 0, QTick] fresh_queue) = [0, 1] \<and>
   invoked (qdrain (qrun [Enqueue (Returns (Fulfilled 1)), Enqueue (Returns (Rejected 2)),
       Enqueue (Returns (Fulfilled 3))] fresh_queue)) = [0, 1, 2] \<and>
   fst (enqueue (Returns (Fulfilled 4)) (qrun [Enqueue (Returns (Fulfilled 1)),
       Enqueue (Returns (Rejected 2)), Enqueue (Returns (Fulfilled 3))] fresh_queue)) = 3"
proof -
  have 1: "invoked (qrun [Enqueue (Returns (Fulfilled 1)), Enqueue (Returns (Rejected 2)),
       Enqueue (Returns (Fulfilled 3))] fresh_queue) = [0]"
    by code_simp
  have 2: "invoked (qrun [Enqueue (Returns (Fulfilled 1)), Enqueue (Returns (Rejected 2)),
       Enqueue (Returns (Fulfilled 3)), QSettle 0, QTick] fresh_queue) = [0, 1]"
    by code_simp
  from C3_fifo_start_order [of "Returns (Fulfilled 4)"
      "[Enqueue (Returns (Fulfilled 1)), Enqueue (Returns (Rejected 2)),
        Enqueue (Returns (Fulfilled 3))]" "[QSettle 0, QTick]"] 1 2
  show ?thesis by simp
qed



text \<open>
  C5. Every result handle is settled exactly once, after a single execution of the
  operation. \<open>settlements\<close> logs every call of a task's \<^verbatim>\<open>resolve\<close> (a
  \<open>Fulfilled\<close> entry) or \<^verbatim>\<open>reject\<close> (a \<open>Rejected\<close> entry), and \<open>invoked\<close> every call
  of a \<^verbatim>\<open>promiseFunc\<close>. After any events \<open>evs\<close> no operation has been invoked twice
  and the settlement log is an initial segment of the list that pairs each call of
  \<^verbatim>\<open>enqueue\<close> among \<open>evs\<close>, in order, with the outcome of its own operation. Once
  every operation has settled, the operation of every such call has been invoked once,
  the log is that whole list (one entry for each task, fulfilled or rejected as its
  operation was) and every handle is settled with that outcome.
\<close>

theorem C5_settled_exactly_once:
  "distinct (invoked (qrun evs fresh_queue)) \<and>
   prefix (settlements (qrun evs fresh_queue)) (enumerate 0 (map result_of (enqueued evs))) \<and>
   invoked (qdrain (qrun evs fresh_queue)) = [0..<length (enqueued evs)] \<and>
   settlements (qdrain (qrun evs fresh_queue)) = enumerate 0 (map result_of (enqueued evs)) \<and>
   map (handle (qdrain (qrun evs fresh_queue))) [0..<length (enqueued evs)] =
     map (Some \<circ> result_of) (enqueued evs)"
proof -
  let ?w = "qrun evs fresh_queue"
  have inv: "qinv ?w" by (rule qinv_reachable)
  note sub = submitted_reachable [of evs]
  have "distinct (invoked ?w @ map fst (queue ?w))"
    by (simp only: qinv_invoked_queue [OF inv] distinct_upt)
  then have 1: "distinct (invoked ?w)" by simp
  from inv have "pipeline ?w = enumerate 0 (map result_of (enqueued evs))"
    by (simp add: qinv_def sub)
  then have 2: "prefix (settlements ?w) (enumerate 0 (map result_of (enqueued evs)))"
    unfolding pipeline_def by (metis prefixI)
  from 1 2 qdrain_done(1,2) [OF inv] queue_drained [of evs] show ?thesis
    by (simp add: sub)
qed

theorem C5_witness:
  "settlements (qdrain (qrun [Enqueue (Returns (Fulfilled 1)), Enqueue (Throws 2),
       Enqueue (Returns (Rejected 3))] fresh_queue)) =
     [(0, Fulfilled 1), (1, Rejected 2), (2, Rejected 3)] \<and>
   invoked (qdrain (qrun [Enqueue (Returns (Fulfilled 1)), Enqueue (Throws 2),
       Enqueue (Returns (Rejected 3))] fresh_queue)) = [0, 1, 2] \<and>
   map (handle (qdrain (qrun [Enqueue (Returns (Fulfilled 1)), Enqueue (Throws 2),
       Enqueue (Returns (Rejected 3))] fresh_queue))) [0, 1, 2] =
     [Some (Fulfilled 1), Some (Rejected 2), Some (Rejected 3)]"
  using C5_settled_exactly_once [of "[Enqueue (Returns (Fulfilled 1)), Enqueue (Throws 2),
       Enqueue (Returns (Rejected 3))]"]
  by (simp add: enumerate_simps numeral_2_eq_2)




text \<open>
  C7. On a fresh pool whose \<open>maxConcurrent\<close> is the length of \<open>outs\<close>, that many calls
  of \<^verbatim>\<open>add\<close> and one more are made, each with an operation that returns a promise.
  The first calls have started their operations when the calls return and the last is
  alone in the queue. Whatever events follow, as long as none of the first operations
  settles, the started operations stay the same and the last call stays at the head of
  the queue. When the operation of any of the first calls settles, the two microtasks
  that follow (the \<^verbatim>\<open>finally\<close> block of that call, then the continuation of the last
  call) start the last operation.
\<close>

theorem C7_last_task_waits_for_a_slot:
  assumes "\<forall>t<length outs. Settle t \<notin> set evs" and "i < length outs"
  shows "started (run (map (Add \<circ> Returns) (outs @ [out])) (fresh_pool (int (length outs)))) =
       [0..<length outs] \<and>
     pool_queue (run (map (Add \<circ> Returns) (outs @ [out])) (fresh_pool (int (length outs)))) =
       [(length outs, Returns out)] \<and>
     started (run (map (Add \<circ> Returns) (outs @ [out]) @ evs) (fresh_pool (int (length outs)))) =
       [0..<length outs] \<and>
     hd (pool_queue (run (map (Add \<circ> Returns) (outs @ [out]) @ evs)
       (fresh_pool (int (length outs))))) = (length outs, Returns out) \<and>
     started (run (map (Add \<circ> Returns) (outs @ [out]) @ [Settle i, Tick, Tick])
       (fresh_pool (int (length outs)))) = [0..<length outs] @ [length outs]"
proof -
  let ?w0 = "run (map (Add \<circ> Returns) (outs @ [out])) (fresh_pool (int (length outs)))"
  note w0 = overfill_pool [of outs out]
  have "parked (length outs) (Returns out) ?w0"
    unfolding w0 by (simp add: parked_def nth_append)
  from parked_run [OF this assms(1)]
  have 1: "started (run evs ?w0) = [0..<length outs]"
    "hd (pool_queue (run evs ?w0)) = (length outs, Returns out)"
    by (simp_all add: parked_def)
  have 2: "started (run [Settle i, Tick, Tick] ?w0) = [0..<length outs] @ [length outs]"
    unfolding w0 using assms(2)
    by (simp add: run_def settle_def finally_block_def start_def nth_append Let_def)
  from 1 2 show ?thesis
    unfolding run_append using w0 by simp
qed

theorem C7_witness:
  "started (run [Add (Returns (Fulfilled 1)), Add (Returns (Fulfilled 2)),
       Add (Returns (Fulfilled 3)), Tick, Add (Returns (Fulfilled 4)), Settle 2, Tick]
     (fresh_pool 2)) = [0, 1] \<and>
   hd (pool_queue (run [Add (Returns (Fulfilled 1)), Add (Returns (Fulfilled 2)),
       Add (Returns (Fulfilled 3)), Tick, Add (Returns (Fulfilled 4)), Settle 2, Tick]
     (fresh_pool 2))) = (2, Returns (Fulfilled 3)) \<and>
   started (run [Add (Returns (Fulfilled 1)), Add (Returns (Fulfilled 2)),
       Add (Returns (Fulfilled 3)), Settle 1, Tick, Tick] (fresh_pool 2)) = [0, 1, 2]"
proof -
  have h1: "\<forall>t<length [Fulfilled 1, Fulfilled 2].
      Settle t \<notin> set [Tick, Add (Returns (Fulfilled 4)), Settle 2, Tick]"
    by simp
  have h2: "1 < length [Fulfilled 1, Fulfilled 2]" by simp
  from C7_last_task_waits_for_a_slot [OF h1 h2, of "Fulfilled 3"] show ?thesis by simp
qed

text \<open>
  C8. In \<open>handoff_state\<close> the running count is below \<open>maxConcurrent\<close> and the queue
  holds call 2, yet the next step of the scheduler (the continuation of the woken call 1)
  dequeues nothing: it starts call 1 and call 2 stays queued.
\<close>

theorem C8_counterexample:
  "running handoff_state < maxConcurrent handoff_state \<and>
   pool_queue handoff_state = [(2, Returns (Fulfilled 3))] \<and>
   pool_queue (step Tick handoff_state) = [(2, Returns (Fulfilled 3))] \<and>
   started (step Tick handoff_state) = [0, 1]"
  by (simp add: handoff_state_def run_def fresh_pool_def new_PromisePool_def boot_def
      add_def start_def finally_block_def settle_def)

text \<open>
  C8, as amended. In every reachable state every queued call is still waiting: none is
  running or settled. For every state and event, the head of a non-empty queue is removed
  by a step exactly when that step runs a \<^verbatim>\<open>finally\<close> block; the running count is
  not compared with \<open>maxConcurrent\<close> there. The continuation of a dequeued call starts
  its operation.
\<close>

theorem C8_queue_holds_only_waiting_calls:
  "list_all (\<lambda>(t, b). t < length (phases (run evs (fresh_pool n))) \<and>
       phases (run evs (fresh_pool n)) ! t = Waiting)
     (pool_queue (run evs (fresh_pool n))) \<and>
   ((pool_queue w \<noteq> [] \<and> pool_queue (step ev w) = tl (pool_queue w)) =
    (pool_queue w \<noteq> [] \<and> finished (step ev w) \<noteq> finished w)) \<and>
   started (run_job (Resume r b) w) = started w @ [r]"
proof -
  let ?w = "run evs (fresh_pool n)"
  have "pool_ok (pool_queue ?w) (microtasks ?w) (phases ?w) (running ?w)"
    using pinv_reachable [of evs n] by (simp add: pinv_def)
  from pool_okD(4) [OF this]
  have "list_all (\<lambda>(t, b). t < length (phases ?w) \<and> phases ?w ! t = Waiting) (pool_queue ?w)"
    by (force simp: list_all_iff)
  moreover have "started (run_job (Resume r b) w) = started w @ [r]"
    by (cases b) (simp_all add: start_def finally_block_def Let_def split: list.split)
  ultimately show ?thesis using dequeue_iff_finally [of w ev] by simp
qed

text \<open>
  C9. \<^verbatim>\<open>processQueue\<close> is guarded against re-entrancy: called while \<open>processing\<close> is
  set it changes nothing, so it dequeues nothing. After every sequence of events at most
  one activation of \<^verbatim>\<open>processQueue\<close> is suspended at line 200, whether its operation
  is still pending (\<open>awaiting\<close>) or has settled and its continuation is a pending
  microtask (\<open>reactions\<close>).
\<close>

theorem C9_reentrancy_guard:
  "processQueue (w\<lparr>processing := True\<rparr>) = w\<lparr>processing := True\<rparr> \<and>
   length (awaiting (qrun evs fresh_queue)) + length (reactions (qrun evs fresh_queue)) \<le> 1"
proof -
  have "qinv (qrun evs fresh_queue)" by (rule qinv_reachable)
  then have "length (awaiting (qrun evs fresh_queue)) + length (reactions (qrun evs fresh_queue)) \<le> 1"
    by (simp add: qinv_def split: if_splits)
  then show ?thesis by (simp add: processQueue_def)
qed

text \<open>
  C10. When the operation of a started call settles (\<open>Settle\<close>, for a fulfilment or a
  rejection), exactly one continuation is queued for it; the step that runs this
  continuation decrements \<open>running\<close> by one, logs the call as finished, removes the
  head of the queue if there is one and queues the continuation of that oldest waiter and
  of no other. When the operation throws as it is invoked, in the continuation of a woken
  call or in a call of \<^verbatim>\<open>add\<close> that finds a free slot, the same step increments and
  decrements \<open>running\<close>, logs the call as started and as finished, and wakes the oldest
  waiter in the same way. After every sequence of events no call has been started twice or
  finished twice, \<open>running\<close> is the number of operations invoked less the number of
  \<^verbatim>\<open>finally\<close> blocks run, and it is the number of calls between the two. On a pool
  with \<open>maxConcurrent\<close> at least 1, once every operation has settled, every call has
  started once and finished once and \<open>running\<close> is back to 0.
\<close>

theorem C10_completion_releases_one_slot:
  assumes "t < length (phases w)" and "phases w ! t = Running out"
    and "microtasks v = Finish u res # js"
    and "microtasks x = Resume s (Throws e) # ks"
    and "running y < maxConcurrent y"
    and "1 \<le> n"
  shows "step (Settle t) w =
       w\<lparr>phases := (phases w)[t := Settled out],
         microtasks := microtasks w @ [Finish t out]\<rparr> \<and>
     running (step Tick v) = running v - 1 \<and>
     finished (step Tick v) = finished v @ [u] \<and>
     pool_queue (step Tick v) = tl (pool_queue v) \<and>
     microtasks (step Tick v) =
       js @ (case pool_queue v of [] \<Rightarrow> [] | (r, b) # rest \<Rightarrow> [Resume r b]) \<and>
     running (step Tick x) = running x \<and>
     started (step Tick x) = started x @ [s] \<and>
     finished (step Tick x) = finished x @ [s] \<and>
     pool_queue (step Tick x) = tl (pool_queue x) \<and>
     microtasks (step Tick x) =
       ks @ (case pool_queue x of [] \<Rightarrow> [] | (r, b) # rest \<Rightarrow> [Resume r b]) \<and>
     running (step (Add (Throws e')) y) = running y \<and>
     finished (step (Add (Throws e')) y) = finished y @ [length (phases y)] \<and>
     pool_queue (step (Add (Throws e')) y) = tl (pool_queue y) \<and>
     microtasks (step (Add (Throws e')) y) =
       microtasks y @ (case pool_queue y of [] \<Rightarrow> [] | (r, b) # rest \<Rightarrow> [Resume r b]) \<and>
     distinct (started (run evs (fresh_pool m))) \<and>
     distinct (finished (run evs (fresh_pool m))) \<and>
     running (run evs (fresh_pool m)) =
       int (length (started (run evs (fresh_pool m)))) -
       int (length (finished (run evs (fresh_pool m)))) \<and>
     running (run evs (fresh_pool m)) =
       int (length (filter active (phases (run evs (fresh_pool m))))) \<and>
     sort (started (pdrain (run evs (fresh_pool n)))) =
       [0..<length (requested (pdrain (run evs (fresh_pool n))))] \<and>
     sort (finished (pdrain (run evs (fresh_pool n)))) =
       [0..<length (requested (pdrain (run evs (fresh_pool n))))] \<and>
     running (pdrain (run evs (fresh_pool n))) = 0"
proof -
  have 1: "step (Settle t) w =
      w\<lparr>phases := (phases w)[t := Settled out],
        microtasks := microtasks w @ [Finish t out]\<rparr>"
    using assms(1,2) by (simp add: settle_def)
  from logs_reachable [of evs m]
  have 2: "distinct (started (run evs (fresh_pool m)))"
    "distinct (finished (run evs (fresh_pool m)))"
    by (simp_all add: plogs_def logged_def)
  have 3: "running (run evs (fresh_pool m)) =
      int (length (filter active (phases (run evs (fresh_pool m)))))"
    using pool_okD(7) [OF pinv_reachable [unfolded pinv_def], of evs m] .
  show ?thesis
    using 1 2 3 tick_Finish [OF assms(3)] tick_Resume_Throws [OF assms(4)]
      add_Throws [OF assms(5), of e'] balance_reachable [of evs m]
      all_finished [OF assms(6), of evs]
    by (intro conjI) (simp_all only:)
qed


theorem C10_witness:
  "microtasks (step (Settle 0) busy_pool) = [Finish 0 (Fulfilled 1)] \<and>
   running (step (Settle 0) busy_pool) = 1 \<and>
   running (step Tick (step (Settle 0) busy_pool)) = 0 \<and>
   finished (step Tick (step (Settle 0) busy_pool)) = [0] \<and>
   pool_queue (step Tick (step (Settle 0) busy_pool)) = [(2, Returns (Rejected 2))] \<and>
   microtasks (step Tick (step (Settle 0) busy_pool)) = [Resume 1 (Throws 5)] \<and>
   running (step Tick (step Tick (step (Settle 0) busy_pool))) = 0 \<and>
   started (step Tick (step Tick (step (Settle 0) busy_pool))) = [0, 1] \<and>
   finished (step Tick (step Tick (step (Settle 0) busy_pool))) = [0, 1] \<and>
   pool_queue (step Tick (step Tick (step (Settle 0) busy_pool))) = [] \<and>
   microtasks (step Tick (step Tick (step (Settle 0) busy_pool))) =
     [Resume 2 (Returns (Rejected 2))] \<and>
   running (step (Add (Throws 7)) (fresh_pool 1)) = 0 \<and>
   finished (step (Add (Throws 7)) (fresh_pool 1)) = [0] \<and>
   sort (finished (pdrain (run [Add (Returns (Fulfilled 1)), Add (Throws 5),
       Add (Returns (Rejected 2))] (fresh_pool 1)))) = [0, 1, 2] \<and>
   running (pdrain (run [Add (Returns (Fulfilled 1)), Add (Throws 5),
       Add (Returns (Rejected 2))] (fresh_pool 1))) = 0"
proof -
  let ?v = "step (Settle 0) busy_pool"
  let ?x = "step Tick ?v"
  have h1: "0 < length (phases busy_pool)" by code_simp
  have h2: "phases busy_pool ! 0 = Running (Fulfilled 1)" by code_simp
  have h3: "microtasks ?v = Finish 0 (Fulfilled 1) # []" by code_simp
  have h4: "microtasks ?x = Resume 1 (Throws 5) # []" by code_simp
  have h5: "running (fresh_pool 1) < maxConcurrent (fresh_pool 1)" by code_simp
  have h6: "(1::int) \<le> 1" by simp
  have a: "running ?v = 1" "finished ?v = []" "pool_queue ?v =
      [(1, Throws 5), (2, Returns (Rejected 2))]" "started ?v = [0]"
    "running (fresh_pool 1) = 0" "finished (fresh_pool 1) = []"
    "phases (fresh_pool 1) = []"
    "length (requested (pdrain (run [Add (Returns (Fulfilled 1)), Add (Throws 5),
       Add (Returns (Rejected 2))] (fresh_pool 1)))) = 3"
    by code_simp+
  note th = C10_completion_releases_one_slot [OF h1 h2 h3 h4 h5 h6, of 7
      "[Add (Returns (Fulfilled 1)), Add (Throws 5), Add (Returns (Rejected 2))]" 1]
  from th have v: "running ?x = running ?v - 1" "finished ?x = finished ?v @ [0]"
    "pool_queue ?x = tl (pool_queue ?v)" "microtasks ?x = Resume 1 (Throws 5) # []"
    using h4 by blast+
  from th have x: "running (step Tick ?x) = running ?x"
    "started (step Tick ?x) = started ?x @ [1]"
    "finished (step Tick ?x) = finished ?x @ [1]"
    "pool_queue (step Tick ?x) = tl (pool_queue ?x)"
    "microtasks (step Tick ?x) =
      [] @ (case pool_queue ?x of [] \<Rightarrow> [] | (r, b) # rest \<Rightarrow> [Resume r b])"
    by blast+
  from th have y: "running (step (Add (Throws 7)) (fresh_pool 1)) = running (fresh_pool 1)"
    "finished (step (Add (Throws 7)) (fresh_pool 1)) =
      finished (fresh_pool 1) @ [length (phases (fresh_pool 1))]"
    by blast+
  from th have d: "sort (finished (pdrain (run [Add (Returns (Fulfilled 1)), Add (Throws 5),
       Add (Returns (Rejected 2))] (fresh_pool 1)))) =
     [0..<length (requested (pdrain (run [Add (Returns (Fulfilled 1)), Add (Throws 5),
       Add (Returns (Rejected 2))] (fresh_pool 1))))]"
    "running (pdrain (run [Add (Returns (Fulfilled 1)), Add (Throws 5),
       Add (Returns (Rejected 2))] (fresh_pool 1))) = 0"
    by blast+
  have sx: "started ?x = [0]" using tick_Finish(3) [OF h3] a(4) by (simp only:)
  have "[0..<3] = [0, 1, 2::nat]" by (simp add: upt_rec)
  with v x y d a sx h3 show ?thesis
    by (simp del: step.simps)
qed

end
